theory Spec2Isabelle
  imports Main "HOL-Library.Word" "HOL-Library.AList"
begin

section \<open>Wire types of the ChatCloud service\<close>

text \<open>
  The shapes of \<^verbatim>\<open>chatcloud.proto\<close>. A message carries the Go field names of the
  generated struct; the requests carry the proto field names. JoinRoom, StreamMessages
  and LeaveRoom requests have the same two fields; SendMessage adds the content.
  \<^verbatim>\<open>int64\<close> is a 64-bit word read as two's complement.
\<close>

type_synonym int64 = "64 word"

record Message =
  Id :: string
  UserId :: string
  RoomId :: string
  Content :: string
  Timestamp :: int64

record RoomRequest =
  user_id :: string
  room_id :: string

record SendMessageRequest = RoomRequest +
  content :: string

text \<open>
  The gRPC status codes the server can name (\<^verbatim>\<open>codes.NotFound\<close> is part of the
  library's enumeration although no handler builds it), and the errors a handler returns:
  a status built with \<^verbatim>\<open>status.Error\<close>, or the error \<^verbatim>\<open>stream.Send\<close> handed back.
\<close>

datatype code = InvalidArgument | NotFound | PermissionDenied | Internal

datatype error = Status code string | TransportError

text \<open>A Go call either returns or panics; nothing in the request handlers recovers.\<close>

datatype 'a outcome = Return 'a | Panic string

section \<open>The clock\<close>

text \<open>
  \<^verbatim>\<open>time.Now()\<close> is an input of the model. The program reads a \<^verbatim>\<open>time.Time\<close> in two
  ways only: \<^verbatim>\<open>UnixNano()\<close> and \<^verbatim>\<open>Format(time.RFC3339)\<close>; a clock reading is the pair of
  both results. \<^verbatim>\<open>time.Parse(time.RFC3339, s)\<close> followed by \<^verbatim>\<open>UnixNano()\<close> is a
  parameter \<open>parse\<close> of the functions that call it, \<open>None\<close> when parsing fails.
\<close>

record clock_reading =
  UnixNano :: int64
  RFC3339 :: string

text \<open>Go's \<^verbatim>\<open>/\<close> on \<^verbatim>\<open>int64\<close> truncates towards zero.\<close>

definition int64_quot :: "int64 \<Rightarrow> int64 \<Rightarrow> int64" where
  "int64_quot a b = word_of_int (sgn (sint a) * sgn (sint b) * (\<bar>sint a\<bar> div \<bar>sint b\<bar>))"

definition Millisecond :: int64 where
  "Millisecond = 1000000"

definition unix_milli :: "int64 \<Rightarrow> int64" where
  "unix_milli n = int64_quot n Millisecond"

section \<open>The Redis store\<close>

text \<open>
  One flat key space, as the server addresses it: every key is a string built by
  concatenation. A key holds a set, a list or a hash; a command on a key of another kind
  is answered with an error, a command on a missing key sees the empty value, and a value
  that becomes empty is removed with its key. Publishing is recorded as the list of
  (channel, payload) pairs handed to the pub/sub side.
\<close>

datatype rvalue = RSet "string set" | RList "string list" | RHash "(string \<times> string) list"

record redis =
  keys :: "string \<Rightarrow> rvalue option"
  published :: "(string \<times> string) list"

type_synonym 'a reply = "string + 'a"

definition WRONGTYPE :: string where
  "WRONGTYPE = ''WRONGTYPE Operation against a key holding the wrong kind of value''"

definition SAdd :: "string \<Rightarrow> string \<Rightarrow> redis \<Rightarrow> unit reply \<times> redis" where
  "SAdd k m r =
     (case keys r k of
        None \<Rightarrow> (Inr (), r\<lparr>keys := (keys r)(k \<mapsto> RSet {m})\<rparr>)
      | Some (RSet S) \<Rightarrow> (Inr (), r\<lparr>keys := (keys r)(k \<mapsto> RSet (insert m S))\<rparr>)
      | Some _ \<Rightarrow> (Inl WRONGTYPE, r))"

definition SRem :: "string \<Rightarrow> string \<Rightarrow> redis \<Rightarrow> unit reply \<times> redis" where
  "SRem k m r =
     (case keys r k of
        None \<Rightarrow> (Inr (), r)
      | Some (RSet S) \<Rightarrow>
          (Inr (), if S - {m} = {} then r\<lparr>keys := (keys r)(k := None)\<rparr>
                   else r\<lparr>keys := (keys r)(k \<mapsto> RSet (S - {m}))\<rparr>)
      | Some _ \<Rightarrow> (Inl WRONGTYPE, r))"

definition SIsMember :: "string \<Rightarrow> string \<Rightarrow> redis \<Rightarrow> bool reply" where
  "SIsMember k m r =
     (case keys r k of
        None \<Rightarrow> Inr False
      | Some (RSet S) \<Rightarrow> Inr (m \<in> S)
      | Some _ \<Rightarrow> Inl WRONGTYPE)"

definition LPush :: "string \<Rightarrow> string \<Rightarrow> redis \<Rightarrow> unit reply \<times> redis" where
  "LPush k v r =
     (case keys r k of
        None \<Rightarrow> (Inr (), r\<lparr>keys := (keys r)(k \<mapsto> RList [v])\<rparr>)
      | Some (RList xs) \<Rightarrow> (Inr (), r\<lparr>keys := (keys r)(k \<mapsto> RList (v # xs))\<rparr>)
      | Some _ \<Rightarrow> (Inl WRONGTYPE, r))"

text \<open>
  The server passes only the constant bounds \<open>0, 999\<close> and \<open>0, 49\<close>, so the indices are
  naturals here: the elements at positions \<open>start\<close> to \<open>stop\<close>, both included.
\<close>

definition lrange :: "nat \<Rightarrow> nat \<Rightarrow> 'a list \<Rightarrow> 'a list" where
  "lrange start stop xs = take (Suc stop - start) (drop start xs)"

definition LTrim :: "string \<Rightarrow> nat \<Rightarrow> nat \<Rightarrow> redis \<Rightarrow> unit reply \<times> redis" where
  "LTrim k start stop r =
     (case keys r k of
        None \<Rightarrow> (Inr (), r)
      | Some (RList xs) \<Rightarrow>
          (Inr (), if lrange start stop xs = [] then r\<lparr>keys := (keys r)(k := None)\<rparr>
                   else r\<lparr>keys := (keys r)(k \<mapsto> RList (lrange start stop xs))\<rparr>)
      | Some _ \<Rightarrow> (Inl WRONGTYPE, r))"

definition LRange :: "string \<Rightarrow> nat \<Rightarrow> nat \<Rightarrow> redis \<Rightarrow> string list reply" where
  "LRange k start stop r =
     (case keys r k of
        None \<Rightarrow> Inr []
      | Some (RList xs) \<Rightarrow> Inr (lrange start stop xs)
      | Some _ \<Rightarrow> Inl WRONGTYPE)"

fun hset_fields :: "(string \<times> string) list \<Rightarrow> (string \<times> string) list \<Rightarrow> (string \<times> string) list" where
  "hset_fields [] h = h"
| "hset_fields ((f, v) # fs) h = hset_fields fs (AList.update f v h)"

definition HSet :: "string \<Rightarrow> (string \<times> string) list \<Rightarrow> redis \<Rightarrow> unit reply \<times> redis" where
  "HSet k fs r =
     (case keys r k of
        None \<Rightarrow> (Inr (), r\<lparr>keys := (keys r)(k \<mapsto> RHash (hset_fields fs []))\<rparr>)
      | Some (RHash h) \<Rightarrow> (Inr (), r\<lparr>keys := (keys r)(k \<mapsto> RHash (hset_fields fs h))\<rparr>)
      | Some _ \<Rightarrow> (Inl WRONGTYPE, r))"

definition HGetAll :: "string \<Rightarrow> redis \<Rightarrow> (string \<times> string) list reply" where
  "HGetAll k r =
     (case keys r k of
        None \<Rightarrow> Inr []
      | Some (RHash h) \<Rightarrow> Inr h
      | Some _ \<Rightarrow> Inl WRONGTYPE)"

definition Publish :: "string \<Rightarrow> string \<Rightarrow> redis \<Rightarrow> unit reply \<times> redis" where
  "Publish c p r = (Inr (), r\<lparr>published := published r @ [(c, p)]\<rparr>)"

text \<open>
  A command can also fail for reasons outside the store's contents (the connection).
  Every handler numbers its commands in source order and takes a predicate \<open>fails\<close>:
  command \<open>i\<close> of the call fails, with no effect on the store, when \<open>fails i\<close>.
\<close>

definition connection_error :: string where
  "connection_error = ''connection error''"

definition cmd :: "(nat \<Rightarrow> bool) \<Rightarrow> nat \<Rightarrow> (redis \<Rightarrow> 'a reply \<times> redis) \<Rightarrow> redis \<Rightarrow> 'a reply \<times> redis" where
  "cmd fails i c r = (if fails i then (Inl connection_error, r) else c r)"

definition query :: "(nat \<Rightarrow> bool) \<Rightarrow> nat \<Rightarrow> (redis \<Rightarrow> 'a reply) \<Rightarrow> redis \<Rightarrow> 'a reply" where
  "query fails i q r = (if fails i then Inl connection_error else q r)"

text \<open>Indexing a Go \<^verbatim>\<open>map[string]string\<close>: the empty string for a missing key.\<close>

definition index :: "(string \<times> string) list \<Rightarrow> string \<Rightarrow> string" where
  "index m k = (case map_of m k of None \<Rightarrow> [] | Some v \<Rightarrow> v)"

section \<open>Channels\<close>

text \<open>
  A buffered Go channel of messages: the queued messages, oldest first, and whether it
  has been closed. Every channel the server makes has capacity 200.
\<close>

record chan =
  buf :: "Message list"
  closed :: bool

definition capacity :: nat where
  "capacity = 200"

definition make_chan :: chan where
  "make_chan = \<lparr>buf = [], closed = False\<rparr>"

text \<open>\<^verbatim>\<open>close(ch)\<close>: \<open>None\<close> is the panic on a channel that is closed already.\<close>

definition close_chan :: "chan \<Rightarrow> chan option" where
  "close_chan ch = (if closed ch then None else Some (ch\<lparr>closed := True\<rparr>))"

text \<open>
  \<^verbatim>\<open>select { case ch <- m: default: }\<close>: a send on a closed channel panics, a channel with
  room takes the message, a full one leaves the default branch.
\<close>

datatype send_result = SendPanic | Sent chan | Full

definition try_send :: "Message \<Rightarrow> chan \<Rightarrow> send_result" where
  "try_send m ch =
     (if closed ch then SendPanic
      else if length (buf ch) < capacity then Sent (ch\<lparr>buf := buf ch @ [m]\<rparr>)
      else Full)"

text \<open>
  A receive \<^verbatim>\<open>m, ok := <-ch\<close> that is ready: a queued message with \<open>ok\<close>, or the zero
  value without \<open>ok\<close> once the channel is closed and drained. \<open>None\<close>: not ready.
\<close>

definition try_recv :: "chan \<Rightarrow> (Message option \<times> chan) option" where
  "try_recv ch =
     (case buf ch of
        m # ms \<Rightarrow> Some (Some m, ch\<lparr>buf := ms\<rparr>)
      | [] \<Rightarrow> if closed ch then Some (None, ch) else None)"

section \<open>The server\<close>

text \<open>
  \<^verbatim>\<open>ChatCloudServer\<close>: the Redis client and the registry \<^verbatim>\<open>roomStreams\<close>, a map from room
  to a map from user to that user's channel. Go maps are association lists with distinct
  keys here (\<open>map_of\<close> reads, \<open>AList.update\<close> stores, \<open>AList.delete\<close> deletes), and a
  channel value is the address of its state in \<open>heap\<close>: two handlers that hold the
  same channel see each other's sends and closes. \<open>allocated\<close> counts the channels made
  so far, \<open>logs\<close> collects the format strings handed to \<^verbatim>\<open>log.Printf\<close>.
\<close>

record ChatCloudServer =
  rdb :: redis
  roomStreams :: "(string \<times> (string \<times> nat) list) list"
  heap :: "nat \<Rightarrow> chan"
  allocated :: nat
  logs :: "string list"

definition NewChatCloudServer :: "redis \<Rightarrow> ChatCloudServer" where
  "NewChatCloudServer r =
     \<lparr>rdb = r, roomStreams = [], heap = (\<lambda>_. make_chan), allocated = 0, logs = []\<rparr>"

definition logf :: "string \<Rightarrow> ChatCloudServer \<Rightarrow> ChatCloudServer" where
  "logf l s = s\<lparr>logs := logs s @ [l]\<rparr>"

record Response =
  Success :: bool

record JoinRoomResponse = Response +
  RecentMessages :: "Message list"

record SendMessageResponse = Response +
  SentMessage :: Message

subsection \<open>JoinRoom\<close>

text \<open>
  Building a \<^verbatim>\<open>proto.Message\<close> from the field map of a stored message, as JoinRoom and
  the pub/sub listener of StreamMessages both do; \<open>None\<close> when the timestamp does not parse.
\<close>

definition resolve :: "(string \<Rightarrow> int64 option) \<Rightarrow> string \<Rightarrow> (string \<times> string) list \<Rightarrow> Message option" where
  "resolve parse msgID msgMap =
     (case parse (index msgMap ''timestamp'') of
        None \<Rightarrow> None
      | Some n \<Rightarrow>
          Some \<lparr>Id = msgID, UserId = index msgMap ''user_id'', RoomId = index msgMap ''room_id'',
                Content = index msgMap ''content'', Timestamp = unix_milli n\<rparr>)"

text \<open>
  The loop over the message IDs; \<open>i\<close> is the number of the next Redis command of the
  call, \<open>recentMessages\<close> the slice built so far.
\<close>

fun recent_loop ::
  "(string \<Rightarrow> int64 option) \<Rightarrow> (nat \<Rightarrow> bool) \<Rightarrow> nat \<Rightarrow> string list \<Rightarrow> Message list \<Rightarrow>
   ChatCloudServer \<Rightarrow> Message list \<times> ChatCloudServer" where
  "recent_loop parse fails i [] recentMessages s = (recentMessages, s)"
| "recent_loop parse fails i (msgID # rest) recentMessages s =
     (case query fails i (HGetAll (''message:'' @ msgID)) (rdb s) of
        Inl e \<Rightarrow>
          recent_loop parse fails (Suc i) rest recentMessages
            (logf ''Error getting message details: %v'' s)
      | Inr msgMap \<Rightarrow>
          (case resolve parse msgID msgMap of
             None \<Rightarrow>
               recent_loop parse fails (Suc i) rest recentMessages
                 (logf ''Error parsing timestamp: %v'' s)
           | Some msg \<Rightarrow> recent_loop parse fails (Suc i) rest (recentMessages @ [msg]) s))"

definition JoinRoom ::
  "(string \<Rightarrow> int64 option) \<Rightarrow> (nat \<Rightarrow> bool) \<Rightarrow> RoomRequest \<Rightarrow> ChatCloudServer \<Rightarrow>
   (error + JoinRoomResponse) \<times> ChatCloudServer" where
  "JoinRoom parse fails req s =
     (if user_id req = [] then (Inl (Status InvalidArgument ''user_id is required''), s)
      else if room_id req = [] then (Inl (Status InvalidArgument ''room_id is required''), s)
      else
        (case cmd fails 0 (SAdd (''room:'' @ room_id req @ '':users'') (user_id req)) (rdb s) of
          (Inl e, _) \<Rightarrow>
            (Inl (Status Internal ''failed to join room''),
             logf ''Error adding user to room: %v'' s)
        | (Inr _, r1) \<Rightarrow>
            (case cmd fails 1 (SAdd (''user:'' @ user_id req @ '':rooms'') (room_id req)) r1 of
               (Inl e, _) \<Rightarrow>
                 (Inl (Status Internal ''failed to join room''),
                  logf ''Error adding room to user's rooms: %v'' (s\<lparr>rdb := r1\<rparr>))
             | (Inr _, r2) \<Rightarrow>
                 (case query fails 2 (LRange (''room:'' @ room_id req @ '':messages'') 0 49) r2 of
                    Inl e \<Rightarrow>
                      (Inl (Status Internal ''failed to get recent messages''),
                       logf ''Error getting recent messages: %v'' (s\<lparr>rdb := r2\<rparr>))
                  | Inr messageIDs \<Rightarrow>
                      (case recent_loop parse fails 3 messageIDs [] (s\<lparr>rdb := r2\<rparr>) of
                         (recentMessages, s') \<Rightarrow>
                           (Inr \<lparr>Success = True, RecentMessages = recentMessages\<rparr>, s'))))))"

subsection \<open>broadcastMessage\<close>

text \<open>
  One non-blocking send per entry of the room's map, in the order the map is iterated.
  A send on a closed channel panics, and nothing on the way up recovers.
\<close>

fun broadcast_loop :: "Message \<Rightarrow> (string \<times> nat) list \<Rightarrow> ChatCloudServer \<Rightarrow> unit outcome \<times> ChatCloudServer" where
  "broadcast_loop msg [] s = (Return (), s)"
| "broadcast_loop msg ((user, msgChan) # rest) s =
     (case try_send msg (heap s msgChan) of
        SendPanic \<Rightarrow> (Panic ''send on closed channel'', s)
      | Sent ch \<Rightarrow> broadcast_loop msg rest (s\<lparr>heap := (heap s)(msgChan := ch)\<rparr>)
      | Full \<Rightarrow> broadcast_loop msg rest (logf ''Channel full, dropping message'' s))"

definition broadcastMessage :: "Message \<Rightarrow> ChatCloudServer \<Rightarrow> unit outcome \<times> ChatCloudServer" where
  "broadcastMessage msg s =
     (case map_of (roomStreams s) (RoomId msg) of
        None \<Rightarrow> (Return (), s)
      | Some streams \<Rightarrow> broadcast_loop msg streams s)"

subsection \<open>SendMessage\<close>

text \<open>
  \<open>msgID\<close> is the string of the fresh UUID and \<open>now\<close> the clock reading. A failed
  trim or publish is logged and the handler goes on.
\<close>

definition SendMessage ::
  "(nat \<Rightarrow> bool) \<Rightarrow> SendMessageRequest \<Rightarrow> string \<Rightarrow> clock_reading \<Rightarrow> ChatCloudServer \<Rightarrow>
   (error + SendMessageResponse) outcome \<times> ChatCloudServer" where
  "SendMessage fails req msgID now s =
     (if user_id req = [] then (Return (Inl (Status InvalidArgument ''user_id is required'')), s)
      else if room_id req = [] then (Return (Inl (Status InvalidArgument ''room_id is required'')), s)
      else if content req = [] then (Return (Inl (Status InvalidArgument ''content is required'')), s)
      else
        (case query fails 0 (SIsMember (''room:'' @ room_id req @ '':users'') (user_id req)) (rdb s) of
           Inl e \<Rightarrow>
             (Return (Inl (Status Internal ''failed to send message'')),
              logf ''Error checking if user is in room: %v'' s)
         | Inr isMember \<Rightarrow>
             (if \<not> isMember then
                (Return (Inl (Status PermissionDenied ''user is not in the room'')), s)
              else
                (let msg = \<lparr>Id = msgID, UserId = user_id req, RoomId = room_id req,
                            Content = content req, Timestamp = unix_milli (UnixNano now)\<rparr>
                 in
                   (case cmd fails 1
                           (HSet (''message:'' @ msgID)
                              [(''user_id'', user_id req), (''room_id'', room_id req),
                               (''content'', content req), (''timestamp'', RFC3339 now)]) (rdb s) of
                      (Inl e, _) \<Rightarrow>
                        (Return (Inl (Status Internal ''failed to send message'')),
                         logf ''Error storing message: %v'' s)
                    | (Inr _, r1) \<Rightarrow>
                        (case cmd fails 2 (LPush (''room:'' @ room_id req @ '':messages'') msgID) r1 of
                           (Inl e, _) \<Rightarrow>
                             (Return (Inl (Status Internal ''failed to send message'')),
                              logf ''Error adding message to room: %v'' (s\<lparr>rdb := r1\<rparr>))
                         | (Inr _, r2) \<Rightarrow>
                             (case cmd fails 3 (LTrim (''room:'' @ room_id req @ '':messages'') 0 999) r2 of
                                (t, r3) \<Rightarrow>
                                  (case cmd fails 4 (Publish (''room:'' @ room_id req) msgID) r3 of
                                     (p, r4) \<Rightarrow>
                                       (let s3 = (case t of
                                                    Inl e \<Rightarrow> logf ''Error trimming message list: %v'' s
                                                  | Inr _ \<Rightarrow> s);
                                            s4 = (case p of
                                                    Inl e \<Rightarrow> logf ''Error publishing message: %v'' s3
                                                  | Inr _ \<Rightarrow> s3)
                                        in
                                          (case broadcastMessage msg (s4\<lparr>rdb := r4\<rparr>) of
                                             (Panic x, s5) \<Rightarrow> (Panic x, s5)
                                           | (Return _, s5) \<Rightarrow>
                                               (Return (Inr \<lparr>Success = True, SentMessage = msg\<rparr>),
                                                s5)))))))))))"

text \<open>
  The handler holds no lock between its commands on the store and the broadcast, so other
  goroutines can act in between. For runs in which they do, the same handler in two
  parts: everything up to and including the publish, with the message built as the
  result, and the broadcast with the return.
\<close>

definition SendMessage_begin ::
  "(nat \<Rightarrow> bool) \<Rightarrow> SendMessageRequest \<Rightarrow> string \<Rightarrow> clock_reading \<Rightarrow> ChatCloudServer \<Rightarrow>
   (error + Message) \<times> ChatCloudServer" where
  "SendMessage_begin fails req msgID now s =
     (if user_id req = [] then (Inl (Status InvalidArgument ''user_id is required''), s)
      else if room_id req = [] then (Inl (Status InvalidArgument ''room_id is required''), s)
      else if content req = [] then (Inl (Status InvalidArgument ''content is required''), s)
      else
        (case query fails 0 (SIsMember (''room:'' @ room_id req @ '':users'') (user_id req)) (rdb s) of
           Inl e \<Rightarrow>
             (Inl (Status Internal ''failed to send message''),
              logf ''Error checking if user is in room: %v'' s)
         | Inr isMember \<Rightarrow>
             (if \<not> isMember then (Inl (Status PermissionDenied ''user is not in the room''), s)
              else
                (let msg = \<lparr>Id = msgID, UserId = user_id req, RoomId = room_id req,
                            Content = content req, Timestamp = unix_milli (UnixNano now)\<rparr>
                 in
                   (case cmd fails 1
                           (HSet (''message:'' @ msgID)
                              [(''user_id'', user_id req), (''room_id'', room_id req),
                               (''content'', content req), (''timestamp'', RFC3339 now)]) (rdb s) of
                      (Inl e, _) \<Rightarrow>
                        (Inl (Status Internal ''failed to send message''),
                         logf ''Error storing message: %v'' s)
                    | (Inr _, r1) \<Rightarrow>
                        (case cmd fails 2 (LPush (''room:'' @ room_id req @ '':messages'') msgID) r1 of
                           (Inl e, _) \<Rightarrow>
                             (Inl (Status Internal ''failed to send message''),
                              logf ''Error adding message to room: %v'' (s\<lparr>rdb := r1\<rparr>))
                         | (Inr _, r2) \<Rightarrow>
                             (case cmd fails 3 (LTrim (''room:'' @ room_id req @ '':messages'') 0 999) r2 of
                                (t, r3) \<Rightarrow>
                                  (case cmd fails 4 (Publish (''room:'' @ room_id req) msgID) r3 of
                                     (p, r4) \<Rightarrow>
                                       (let s3 = (case t of
                                                    Inl e \<Rightarrow> logf ''Error trimming message list: %v'' s
                                                  | Inr _ \<Rightarrow> s);
                                            s4 = (case p of
                                                    Inl e \<Rightarrow> logf ''Error publishing message: %v'' s3
                                                  | Inr _ \<Rightarrow> s3)
                                        in (Inr msg, s4\<lparr>rdb := r4\<rparr>))))))))))"

definition SendMessage_end ::
  "Message \<Rightarrow> ChatCloudServer \<Rightarrow> (error + SendMessageResponse) outcome \<times> ChatCloudServer" where
  "SendMessage_end msg s =
     (case broadcastMessage msg s of
        (Panic x, s') \<Rightarrow> (Panic x, s')
      | (Return _, s') \<Rightarrow> (Return (Inr \<lparr>Success = True, SentMessage = msg\<rparr>), s'))"

subsection \<open>LeaveRoom\<close>

text \<open>
  The block under the registry lock: the user's channel, if the room's map has one, is
  closed and deleted, and a room's map that is (now) empty is deleted. \<open>None\<close> is the
  panic of \<^verbatim>\<open>close\<close> on a closed channel.
\<close>

definition remove_stream :: "string \<Rightarrow> string \<Rightarrow> ChatCloudServer \<Rightarrow> ChatCloudServer option" where
  "remove_stream room user s =
     (case map_of (roomStreams s) room of
        None \<Rightarrow> Some s
      | Some streams \<Rightarrow>
          (case map_of streams user of
             None \<Rightarrow>
               Some (if length streams = 0
                     then s\<lparr>roomStreams := AList.delete room (roomStreams s)\<rparr> else s)
           | Some msgChan \<Rightarrow>
               (case close_chan (heap s msgChan) of
                  None \<Rightarrow> None
                | Some ch \<Rightarrow>
                    (let streams' = AList.delete user streams;
                         s1 = s\<lparr>heap := (heap s)(msgChan := ch)\<rparr>
                     in Some (if length streams' = 0
                              then s1\<lparr>roomStreams := AList.delete room (roomStreams s)\<rparr>
                              else s1\<lparr>roomStreams := AList.update room streams' (roomStreams s)\<rparr>)))))"

definition LeaveRoom ::
  "(nat \<Rightarrow> bool) \<Rightarrow> RoomRequest \<Rightarrow> ChatCloudServer \<Rightarrow> (error + Response) outcome \<times> ChatCloudServer" where
  "LeaveRoom fails req s =
     (if user_id req = [] then (Return (Inl (Status InvalidArgument ''user_id is required'')), s)
      else if room_id req = [] then (Return (Inl (Status InvalidArgument ''room_id is required'')), s)
      else
        (case cmd fails 0 (SRem (''room:'' @ room_id req @ '':users'') (user_id req)) (rdb s) of
           (Inl e, _) \<Rightarrow>
             (Return (Inl (Status Internal ''failed to leave room'')),
              logf ''Error removing user from room: %v'' s)
         | (Inr _, r1) \<Rightarrow>
             (case cmd fails 1 (SRem (''user:'' @ user_id req @ '':rooms'') (room_id req)) r1 of
                (Inl e, _) \<Rightarrow>
                  (Return (Inl (Status Internal ''failed to leave room'')),
                   logf ''Error removing room from user's rooms: %v'' (s\<lparr>rdb := r1\<rparr>))
              | (Inr _, r2) \<Rightarrow>
                  (case remove_stream (room_id req) (user_id req) (s\<lparr>rdb := r2\<rparr>) of
                     None \<Rightarrow> (Panic ''close of closed channel'', s\<lparr>rdb := r2\<rparr>)
                   | Some s' \<Rightarrow> (Return (Inr \<lparr>Success = True\<rparr>), s')))))"

subsection \<open>StreamMessages\<close>

text \<open>
  Retiring the channel found under the caller's key. The receive of the \<^verbatim>\<open>select\<close> is
  ready when a message is queued or the channel is closed: a queued message is taken and
  the channel closed (the panic of a second close is recovered by the outer function and
  logged); a closed, drained channel is left alone. Otherwise the default branch closes,
  inside its own recover. The result is the channel and the lines logged.
\<close>

definition retire :: "chan \<Rightarrow> chan \<times> string list" where
  "retire ch =
     (case try_recv ch of
        Some (Some m, ch') \<Rightarrow>
          (case close_chan ch' of
             None \<Rightarrow> (ch', [''Recovered from panic when closing existing channel: %v''])
           | Some ch'' \<Rightarrow> (ch'', []))
      | Some (None, ch') \<Rightarrow> (ch', [])
      | None \<Rightarrow>
          (case close_chan ch of
             None \<Rightarrow> (ch, [''Channel was already closed: %v''])
           | Some ch' \<Rightarrow> (ch', [])))"

text \<open>
  The registration under the registry lock: a fresh channel is made, the room's map is
  created if missing, a channel already stored for the user is retired, and the fresh
  channel is stored. The result is the fresh channel and the server.
\<close>

definition register :: "string \<Rightarrow> string \<Rightarrow> ChatCloudServer \<Rightarrow> nat \<times> ChatCloudServer" where
  "register room user s =
     (let msgChan = allocated s;
          s1 = s\<lparr>heap := (heap s)(msgChan := make_chan), allocated := Suc msgChan\<rparr>;
          s2 = (case map_of (roomStreams s1) room of
                  None \<Rightarrow> s1\<lparr>roomStreams := AList.update room [] (roomStreams s1)\<rparr>
                | Some _ \<Rightarrow> s1);
          streams = (case map_of (roomStreams s2) room of None \<Rightarrow> [] | Some m \<Rightarrow> m);
          s3 = (case map_of streams user of
                  None \<Rightarrow> s2
                | Some existingChan \<Rightarrow>
                    (case retire (heap s2 existingChan) of
                       (ch, ls) \<Rightarrow>
                         s2\<lparr>heap := (heap s2)(existingChan := ch),
                            logs := logs s2
                              @ [''Found existing stream for user %s in room %s, closing it safely'']
                              @ ls\<rparr>));
          s4 = s3\<lparr>roomStreams := AList.update room (AList.update user msgChan streams) (roomStreams s3)\<rparr>
      in (msgChan, logf ''Registered new stream for user %s in room %s'' s4))"

text \<open>
  The local variables of one call that outlive the registration: the request, the call's
  channel, the flag \<^verbatim>\<open>closed\<close>, the ticker (its period, a \<^verbatim>\<open>time.Duration\<close> in
  nanoseconds; each tick is an event of the main loop), the keep-alive message (its
  timestamp is overwritten at every tick), whether the pub/sub listener is still running
  and whether it has put an error on \<^verbatim>\<open>redisErrChan\<close>, and the messages
  \<^verbatim>\<open>stream.Send\<close> has accepted so far.
\<close>

definition Second :: int64 where
  "Second = 1000000000"

record stream =
  request :: RoomRequest
  msgChan :: nat
  closedFlag :: bool
  keepAliveTicker :: int64
  keepAliveMsg :: Message
  listening :: bool
  redisErr :: bool
  sent :: "Message list"

text \<open>
  The deferred \<^verbatim>\<open>cleanup\<close> takes the registry lock, deletes the entry of the caller's
  key and a room's map left empty, and releases the lock; then, under the call's own
  mutex, it closes the call's channel unless the flag is set. The two halves are separate
  definitions because other handlers can run between them.
\<close>

definition cleanup_unregister :: "stream \<Rightarrow> ChatCloudServer \<Rightarrow> ChatCloudServer" where
  "cleanup_unregister st s =
     (case map_of (roomStreams s) (room_id (request st)) of
        None \<Rightarrow> s
      | Some streams \<Rightarrow>
          (let streams' = AList.delete (user_id (request st)) streams
           in if length streams' = 0
              then s\<lparr>roomStreams := AList.delete (room_id (request st)) (roomStreams s)\<rparr>
              else s\<lparr>roomStreams := AList.update (room_id (request st)) streams' (roomStreams s)\<rparr>))"

definition cleanup_close :: "stream \<Rightarrow> ChatCloudServer \<Rightarrow> stream \<times> ChatCloudServer" where
  "cleanup_close st s =
     (if \<not> closedFlag st then
        (let s1 = logf ''Closing message channel for user %s in room %s'' s
         in case close_chan (heap s1 (msgChan st)) of
              None \<Rightarrow>
                (st\<lparr>closedFlag := True\<rparr>,
                 logf ''Recovered from panic when closing channel: %v'' s1)
            | Some ch \<Rightarrow>
                (st\<lparr>closedFlag := True\<rparr>,
                 logf ''Cleaned up resources for user %s in room %s''
                   (s1\<lparr>heap := (heap s1)(msgChan st := ch)\<rparr>)))
      else
        (st, logf ''Cleaned up resources for user %s in room %s''
               (logf ''Channel already closed for user %s in room %s'' s)))"

text \<open>
  The deferred calls of a returning stream, last registered first: the ticker is stopped,
  the subscription closed, the Redis context cancelled (logged), then \<^verbatim>\<open>cleanup\<close>.
  The listener goroutine is not ended by the call: it finds the subscription closed or
  its context done at the next turn of its own loop.
\<close>

definition cancel_redis :: "stream \<Rightarrow> ChatCloudServer \<Rightarrow> stream \<times> ChatCloudServer" where
  "cancel_redis st s = (st, logf ''Cancelling Redis context for user %s in room %s'' s)"

definition deferred :: "stream \<Rightarrow> ChatCloudServer \<Rightarrow> stream \<times> ChatCloudServer" where
  "deferred st s =
     (case cancel_redis st s of (st1, s1) \<Rightarrow> cleanup_close st1 (cleanup_unregister st1 s1))"

text \<open>
  One turn of the loop of the pub/sub listener, the goroutine a call starts before its
  first keep-alive. What the turn meets is an input: the Redis context is done (cancelled
  by the returning call, or timed out), the channel of the subscription is closed, or a
  payload has arrived. For a payload, \<open>fail\<close> says whether the read of the message's
  record fails on the connection, and the \<open>offer\<close> says which case of the inner
  \<^verbatim>\<open>select\<close> runs once the message is rebuilt from the record: the send to the call's
  own channel (the default branch when the channel is full), or one of the two contexts
  found done. A send on the closed channel panics; the listener recovers, reports on
  \<^verbatim>\<open>redisErrChan\<close> and ends. Every way out of the loop ends the goroutine.
\<close>

datatype offer = ToChannel | RedisContextDone | StreamContextDone

datatype delivery = ContextDone | SubscriptionClosed | Payload string bool offer

definition listener_step ::
  "(string \<Rightarrow> int64 option) \<Rightarrow> delivery \<Rightarrow> stream \<Rightarrow> ChatCloudServer \<Rightarrow> stream \<times> ChatCloudServer" where
  "listener_step parse d st s =
     (if \<not> listening st then (st, s)
      else
        (case d of
           ContextDone \<Rightarrow>
             (st\<lparr>listening := False\<rparr>,
              logf ''Redis context cancelled, exiting Redis subscription goroutine for user %s in room %s'' s)
         | SubscriptionClosed \<Rightarrow>
             (st\<lparr>listening := False\<rparr>,
              logf ''Redis subscription channel closed for user %s in room %s'' s)
         | Payload msgID fail pick \<Rightarrow>
             (case query (\<lambda>_. fail) 0 (HGetAll (''message:'' @ msgID)) (rdb s) of
                Inl e \<Rightarrow> (st, logf ''Error getting message details: %v'' s)
              | Inr msgMap \<Rightarrow>
                  (case resolve parse msgID msgMap of
                     None \<Rightarrow> (st, logf ''Error parsing timestamp: %v'' s)
                   | Some protoMsg \<Rightarrow>
                       (case pick of
                          RedisContextDone \<Rightarrow>
                            (st\<lparr>listening := False\<rparr>,
                             logf ''Redis context cancelled while sending message'' s)
                        | StreamContextDone \<Rightarrow>
                            (st\<lparr>listening := False\<rparr>,
                             logf ''Stream context cancelled while sending message'' s)
                        | ToChannel \<Rightarrow>
                            (case try_send protoMsg (heap s (msgChan st)) of
                               SendPanic \<Rightarrow>
                                 (st\<lparr>listening := False, redisErr := True\<rparr>,
                                  logf ''Recovered from panic in Redis message handler: %v'' s)
                             | Sent ch \<Rightarrow> (st, s\<lparr>heap := (heap s)(msgChan st := ch)\<rparr>)
                             | Full \<Rightarrow>
                                 (st, logf ''Channel full for user %s in room %s, dropping message''
                                        s)))))))"

text \<open>
  One round of the main loop. The event says which case of the \<^verbatim>\<open>select\<close> fires:
  the stream's context is done, the listener's error is taken, the call's channel is read,
  or the ticker ticks (with the clock reading of that moment); the flag of \<open>Recv\<close> and
  \<open>Tick\<close> says whether \<^verbatim>\<open>stream.Send\<close> succeeds. A case that is not ready (no error
  waiting, an open and empty channel) leaves everything as it is. The first component of
  the result is \<open>None\<close> while the loop goes on and the returned error otherwise.
\<close>

datatype event = CtxDone | RedisErr | Recv bool | Tick int64 bool

definition loop_step ::
  "event \<Rightarrow> stream \<Rightarrow> ChatCloudServer \<Rightarrow> error option option \<times> stream \<times> ChatCloudServer" where
  "loop_step ev st s =
     (case ev of
        CtxDone \<Rightarrow> (Some None, st, logf ''Stream context done for user %s in room %s'' s)
      | RedisErr \<Rightarrow>
          (if redisErr st
           then (Some (Some (Status Internal ''redis subscription error'')), st\<lparr>redisErr := False\<rparr>,
                 logf ''Redis error for user %s in room %s: %v'' s)
           else (None, st, s))
      | Recv ok \<Rightarrow>
          (case try_recv (heap s (msgChan st)) of
             None \<Rightarrow> (None, st, s)
           | Some (None, ch) \<Rightarrow>
               (Some None, st, logf ''Message channel closed for user %s in room %s'' s)
           | Some (Some msg, ch) \<Rightarrow>
               (if ok then (None, st\<lparr>sent := sent st @ [msg]\<rparr>, s\<lparr>heap := (heap s)(msgChan st := ch)\<rparr>)
                else (Some (Some TransportError), st,
                      logf ''Error sending message to user %s in room %s: %v''
                        (s\<lparr>heap := (heap s)(msgChan st := ch)\<rparr>))))
      | Tick n ok \<Rightarrow>
          (let st' = st\<lparr>keepAliveMsg := (keepAliveMsg st)\<lparr>Timestamp := unix_milli n\<rparr>\<rparr>
           in if ok then (None, st'\<lparr>sent := sent st' @ [keepAliveMsg st']\<rparr>, s)
              else (Some (Some TransportError), st',
                    logf ''Error sending keep-alive to user %s in room %s: %v'' s)))"

fun stream_loop ::
  "event list \<Rightarrow> stream \<Rightarrow> ChatCloudServer \<Rightarrow> error option option \<times> stream \<times> ChatCloudServer" where
  "stream_loop [] st s = (None, st, s)"
| "stream_loop (ev # evs) st s =
     (case loop_step ev st s of
        (None, st', s') \<Rightarrow> stream_loop evs st' s'
      | (Some r, st', s') \<Rightarrow> (Some r, st', s'))"

text \<open>
  The call up to its main loop: validation, the membership check, the registration, and
  the first keep-alive (\<open>ok\<close>: whether that send succeeds).
\<close>

datatype opened = Rejected error | Opened stream | Failed error stream

definition open_stream ::
  "(nat \<Rightarrow> bool) \<Rightarrow> RoomRequest \<Rightarrow> clock_reading \<Rightarrow> bool \<Rightarrow> ChatCloudServer \<Rightarrow> opened \<times> ChatCloudServer" where
  "open_stream fails req now ok s =
     (if user_id req = [] then (Rejected (Status InvalidArgument ''user_id is required''), s)
      else if room_id req = [] then (Rejected (Status InvalidArgument ''room_id is required''), s)
      else
        (case query fails 0 (SIsMember (''room:'' @ room_id req @ '':users'') (user_id req)) (rdb s) of
           Inl e \<Rightarrow>
             (Rejected (Status Internal ''failed to stream messages''),
              logf ''Error checking if user is in room: %v'' s)
         | Inr isMember \<Rightarrow>
             (if \<not> isMember then (Rejected (Status PermissionDenied ''user is not in the room''), s)
              else
                (case register (room_id req) (user_id req) s of
                   (c, s1) \<Rightarrow>
                     (let st = \<lparr>request = req, msgChan = c, closedFlag = False,
                                keepAliveTicker = 10 * Second,
                                keepAliveMsg =
                                  \<lparr>Id = ''keep-alive'', UserId = user_id req, RoomId = room_id req,
                                   Content = [], Timestamp = unix_milli (UnixNano now)\<rparr>,
                                listening = True, redisErr = False, sent = []\<rparr>
                      in if ok then (Opened (st\<lparr>sent := [keepAliveMsg st]\<rparr>), s1)
                         else (Failed TransportError st,
                               logf ''Error sending initial keep-alive message: %v'' s1))))))"

text \<open>
  The whole call when nothing else runs in between: the events are the rounds of the main
  loop. \<open>Running\<close>: the events ran out with the loop still going. \<open>Ended\<close>: the call
  returned, and its deferred calls have run.
\<close>

datatype stream_result = Refused error | Running stream | Ended "error option" stream

definition StreamMessages ::
  "(nat \<Rightarrow> bool) \<Rightarrow> RoomRequest \<Rightarrow> clock_reading \<Rightarrow> bool \<Rightarrow> event list \<Rightarrow> ChatCloudServer \<Rightarrow>
   stream_result \<times> ChatCloudServer" where
  "StreamMessages fails req now ok evs s =
     (case open_stream fails req now ok s of
        (Rejected e, s') \<Rightarrow> (Refused e, s')
      | (Failed e st, s') \<Rightarrow> (case deferred st s' of (st', s'') \<Rightarrow> (Ended (Some e) st', s''))
      | (Opened st, s') \<Rightarrow>
          (case stream_loop evs st s' of
             (None, st', s'') \<Rightarrow> (Running st', s'')
           | (Some r, st', s'') \<Rightarrow>
               (case deferred st' s'' of (st'', s''') \<Rightarrow> (Ended r st'', s'''))))"

section \<open>Handlers running side by side\<close>

text \<open>
  The handlers run concurrently; what they share is the store and the registry with its
  channels, and they touch the registry only while holding its lock. A run of the server
  is therefore a sequence of steps, each one a whole request handler or one of the pieces
  of a StreamMessages call between which other handlers can run: the call up to its main
  loop, one round of the loop, one turn of its listener (which may outlive the call's
  return), and the two halves of its cleanup. A SendMessage call is one step, or two when
  others act between its publish and its broadcast: its first part, and later the
  broadcast of a message. The broadcast holds the registry's read lock and does one send
  per channel; what a stream's loop or listener does to its own channel meanwhile comes
  before or after that one send, so the broadcast is a single step for every channel.
  A call of StreamMessages is numbered by its position in \<open>calls\<close>; its phase says
  where its control is. A panic outside a recover ends the process.
\<close>

datatype phase = Looping | Returning | Unregistered | Done

record world =
  server :: ChatCloudServer
  calls :: "(phase \<times> stream) list"
  crashed :: bool

datatype step =
    CallJoinRoom "nat \<Rightarrow> bool" RoomRequest
  | CallSendMessage "nat \<Rightarrow> bool" SendMessageRequest string clock_reading
  | CallLeaveRoom "nat \<Rightarrow> bool" RoomRequest
  | CallStreamMessages "nat \<Rightarrow> bool" RoomRequest clock_reading bool
  | Round nat event
  | Published nat delivery
  | Unregister nat
  | CloseOwn nat
  | BeginSendMessage "nat \<Rightarrow> bool" SendMessageRequest string clock_reading
  | EndSendMessage Message

definition boot :: "redis \<Rightarrow> world" where
  "boot r = \<lparr>server = NewChatCloudServer r, calls = [], crashed = False\<rparr>"

definition exec :: "(string \<Rightarrow> int64 option) \<Rightarrow> step \<Rightarrow> world \<Rightarrow> world" where
  "exec parse c w =
     (if crashed w then w
      else
        (case c of
           CallJoinRoom fails req \<Rightarrow> w\<lparr>server := snd (JoinRoom parse fails req (server w))\<rparr>
         | CallSendMessage fails req msgID now \<Rightarrow>
             (case SendMessage fails req msgID now (server w) of
                (Panic x, s') \<Rightarrow> w\<lparr>server := s', crashed := True\<rparr>
              | (Return _, s') \<Rightarrow> w\<lparr>server := s'\<rparr>)
         | CallLeaveRoom fails req \<Rightarrow>
             (case LeaveRoom fails req (server w) of
                (Panic x, s') \<Rightarrow> w\<lparr>server := s', crashed := True\<rparr>
              | (Return _, s') \<Rightarrow> w\<lparr>server := s'\<rparr>)
         | CallStreamMessages fails req now ok \<Rightarrow>
             (case open_stream fails req now ok (server w) of
                (Rejected e, s') \<Rightarrow> w\<lparr>server := s'\<rparr>
              | (Opened st, s') \<Rightarrow> w\<lparr>server := s', calls := calls w @ [(Looping, st)]\<rparr>
              | (Failed e st, s') \<Rightarrow>
                  (case cancel_redis st s' of
                     (st1, s1) \<Rightarrow> w\<lparr>server := s1, calls := calls w @ [(Returning, st1)]\<rparr>))
         | Round i ev \<Rightarrow>
             (if i < length (calls w) \<and> fst (calls w ! i) = Looping then
                (case loop_step ev (snd (calls w ! i)) (server w) of
                   (None, st', s') \<Rightarrow> w\<lparr>server := s', calls := (calls w)[i := (Looping, st')]\<rparr>
                 | (Some r, st', s') \<Rightarrow>
                     (case cancel_redis st' s' of
                        (st1, s1) \<Rightarrow>
                          w\<lparr>server := s1, calls := (calls w)[i := (Returning, st1)]\<rparr>))
              else w)
         | Published i d \<Rightarrow>
             (if i < length (calls w) then
                (case listener_step parse d (snd (calls w ! i)) (server w) of
                   (st', s') \<Rightarrow> w\<lparr>server := s', calls := (calls w)[i := (fst (calls w ! i), st')]\<rparr>)
              else w)
         | Unregister i \<Rightarrow>
             (if i < length (calls w) \<and> fst (calls w ! i) = Returning then
                w\<lparr>server := cleanup_unregister (snd (calls w ! i)) (server w),
                  calls := (calls w)[i := (Unregistered, snd (calls w ! i))]\<rparr>
              else w)
         | CloseOwn i \<Rightarrow>
             (if i < length (calls w) \<and> fst (calls w ! i) = Unregistered then
                (case cleanup_close (snd (calls w ! i)) (server w) of
                   (st', s') \<Rightarrow> w\<lparr>server := s', calls := (calls w)[i := (Done, st')]\<rparr>)
              else w)
         | BeginSendMessage fails req msgID now \<Rightarrow>
             w\<lparr>server := snd (SendMessage_begin fails req msgID now (server w))\<rparr>
         | EndSendMessage msg \<Rightarrow>
             (case SendMessage_end msg (server w) of
                (Panic x, s') \<Rightarrow> w\<lparr>server := s', crashed := True\<rparr>
              | (Return _, s') \<Rightarrow> w\<lparr>server := s'\<rparr>)))"

fun run :: "(string \<Rightarrow> int64 option) \<Rightarrow> step list \<Rightarrow> world \<Rightarrow> world" where
  "run parse [] w = w"
| "run parse (c # cs) w = run parse cs (exec parse c w)"

text \<open>
  Reading the registry: the channel stored for a room and a user, and all the channels
  stored for a room.
\<close>

definition lookup :: "(string \<times> (string \<times> nat) list) list \<Rightarrow> string \<Rightarrow> string \<Rightarrow> nat option" where
  "lookup rs room user = (case map_of rs room of None \<Rightarrow> None | Some streams \<Rightarrow> map_of streams user)"

definition subscribers :: "ChatCloudServer \<Rightarrow> string \<Rightarrow> (string \<times> nat) list" where
  "subscribers s room = (case map_of (roomStreams s) room of None \<Rightarrow> [] | Some streams \<Rightarrow> streams)"

text \<open>
  What every run keeps true. The registry's maps have distinct keys and no room's map is
  empty; every channel ever made belongs to the call of the same number; a channel in the
  registry is open, is stored under the key of its call, and that call has not yet
  deleted its entry; and the process has not crashed.
\<close>

definition wf_registry :: "(string \<times> (string \<times> nat) list) list \<Rightarrow> bool" where
  "wf_registry rs =
     (distinct (map fst rs) \<and> (\<forall>(room, streams) \<in> set rs. distinct (map fst streams) \<and> streams \<noteq> []))"

definition registry_ok :: "world \<Rightarrow> bool" where
  "registry_ok w =
     (\<not> crashed w \<and>
      wf_registry (roomStreams (server w)) \<and>
      allocated (server w) = length (calls w) \<and>
      (\<forall>i < length (calls w). msgChan (snd (calls w ! i)) = i) \<and>
      (\<forall>room user c. lookup (roomStreams (server w)) room user = Some c \<longrightarrow>
         c < length (calls w) \<and>
         \<not> closed (heap (server w) c) \<and>
         (fst (calls w ! c) = Looping \<or> fst (calls w ! c) = Returning) \<and>
         room_id (request (snd (calls w ! c))) = room \<and>
         user_id (request (snd (calls w ! c))) = user))"

section \<open>Reading the store\<close>

text \<open>
  What the server's keys hold, for stating properties: the members of a room, the rooms of
  a user, the room's list of message IDs (head first), and whether a key is free for a
  set or a list command (missing, or of that kind).
\<close>

definition room_users :: "redis \<Rightarrow> string \<Rightarrow> string set" where
  "room_users r room =
     (case keys r (''room:'' @ room @ '':users'') of Some (RSet S) \<Rightarrow> S | _ \<Rightarrow> {})"

definition user_rooms :: "redis \<Rightarrow> string \<Rightarrow> string set" where
  "user_rooms r user =
     (case keys r (''user:'' @ user @ '':rooms'') of Some (RSet S) \<Rightarrow> S | _ \<Rightarrow> {})"

definition room_messages :: "redis \<Rightarrow> string \<Rightarrow> string list" where
  "room_messages r room =
     (case keys r (''room:'' @ room @ '':messages'') of Some (RList xs) \<Rightarrow> xs | _ \<Rightarrow> [])"

definition holds_set :: "redis \<Rightarrow> string \<Rightarrow> bool" where
  "holds_set r k = (case keys r k of None \<Rightarrow> True | Some (RSet S) \<Rightarrow> True | Some _ \<Rightarrow> False)"

definition holds_list :: "redis \<Rightarrow> string \<Rightarrow> bool" where
  "holds_list r k = (case keys r k of None \<Rightarrow> True | Some (RList xs) \<Rightarrow> True | Some _ \<Rightarrow> False)"

section \<open>Example states\<close>

text \<open>
  Concrete inputs on which the theorems below are exercised: an empty store, the server
  started on it, two requests, and a clock reading.
\<close>

definition empty_store :: redis where
  "empty_store = \<lparr>keys = Map.empty, published = []\<rparr>"

definition fresh_server :: ChatCloudServer where
  "fresh_server = NewChatCloudServer empty_store"

definition ann_lobby :: RoomRequest where
  "ann_lobby = \<lparr>user_id = ''ann'', room_id = ''lobby''\<rparr>"

definition ann_hello :: SendMessageRequest where
  "ann_hello = \<lparr>user_id = ''ann'', room_id = ''lobby'', content = ''hello''\<rparr>"

definition noon :: clock_reading where
  "noon = \<lparr>UnixNano = 1700000000123456789, RFC3339 = ''2023-11-14T22:13:20Z''\<rparr>"

text \<open>
  A connection that never fails; a fragment of the RFC 3339 parser, enough for two
  instants one second apart; a second clock reading; and the world in which ann has
  joined the lobby and opened a stream.
\<close>

definition nofail :: "nat \<Rightarrow> bool" where
  "nofail = (\<lambda>_. False)"

definition parse_example :: "string \<Rightarrow> int64 option" where
  "parse_example t =
     (if t = ''2023-11-14T22:13:20Z'' then Some 1700000000000000000
      else if t = ''2023-11-14T22:13:21Z'' then Some 1700000001000000000
      else None)"

definition later :: clock_reading where
  "later = \<lparr>UnixNano = 1700000001987654321, RFC3339 = ''2023-11-14T22:13:21Z''\<rparr>"

definition ann_streaming :: world where
  "ann_streaming =
     run parse_example
       [CallJoinRoom nofail ann_lobby, CallStreamMessages nofail ann_lobby noon True]
       (boot empty_store)"

text \<open>
  More example inputs: a second user and a second message; a room whose history holds 1000
  IDs, and a connection on which exactly the trim (command 3 of SendMessage) fails; the
  world in which ann has sent two messages, one second apart; a server on which the
  channels of bob and cat are registered for the lobby, bob's holding 200 undelivered
  messages and cat's none; and the world in which ann and bob have joined and bob has
  opened a stream.
\<close>

definition bob_lobby :: RoomRequest where
  "bob_lobby = \<lparr>user_id = ''bob'', room_id = ''lobby''\<rparr>"

definition ann_again :: SendMessageRequest where
  "ann_again = \<lparr>user_id = ''ann'', room_id = ''lobby'', content = ''again''\<rparr>"

definition full_history :: ChatCloudServer where
  "full_history =
     fresh_server\<lparr>rdb :=
       \<lparr>keys = [''room:lobby:users'' \<mapsto> RSet {''ann''},
                ''room:lobby:messages'' \<mapsto> RList (replicate 1000 ''old'')],
        published = []\<rparr>\<rparr>"

definition trim_fails :: "nat \<Rightarrow> bool" where
  "trim_fails i = (i = 3)"


definition old_message :: Message where
  "old_message = \<lparr>Id = ''m0'', UserId = ''ann'', RoomId = ''lobby'', Content = ''earlier'',
                   Timestamp = 1699999999000\<rparr>"

definition bob_behind :: ChatCloudServer where
  "bob_behind =
     \<lparr>rdb = \<lparr>keys = [''room:lobby:users'' \<mapsto> RSet {''ann'', ''bob'', ''cat''}], published = []\<rparr>,
      roomStreams = [(''lobby'', [(''bob'', 0), (''cat'', 1)])],
      heap = (\<lambda>_. make_chan)(0 := \<lparr>buf = replicate 200 old_message, closed = False\<rparr>),
      allocated = 2,
      logs = []\<rparr>"


definition new_message :: Message where
  "new_message = \<lparr>Id = ''m9'', UserId = ''ann'', RoomId = ''lobby'', Content = ''hello'',
                   Timestamp = 1700000000123\<rparr>"

text \<open>The locals of bob's call on that server, before anything was sent.\<close>

definition bob_stream :: stream where
  "bob_stream =
     \<lparr>request = bob_lobby, msgChan = 0, closedFlag = False, keepAliveTicker = 10 * Second,
      keepAliveMsg = \<lparr>Id = ''keep-alive'', UserId = ''bob'', RoomId = ''lobby'', Content = [],
                      Timestamp = 1699999990000\<rparr>,
      listening = True, redisErr = False, sent = []\<rparr>"

text \<open>
  The world in which ann, with a stream open, has opened a second stream for the same room,
  and the first call has found its channel closed, returned, and deleted the entry of its
  key.
\<close>

definition ann_reconnected :: world where
  "ann_reconnected =
     run parse_example
       [CallStreamMessages nofail ann_lobby later True, Round 0 (Recv True), Unregister 0]
       ann_streaming"

section \<open>Following a message to a stream\<close>

text \<open>
  A step in which call \<open>i\<close> reads its channel and \<^verbatim>\<open>stream.Send\<close> succeeds, and the
  number of such steps in a run.
\<close>

fun takes :: "nat \<Rightarrow> step \<Rightarrow> bool" where
  "takes i (Round j (Recv ok)) = (j = i \<and> ok)"
| "takes i _ = False"

definition recvs :: "nat \<Rightarrow> step list \<Rightarrow> nat" where
  "recvs i cs = length (filter (takes i) cs)"

text \<open>
  What one step does to call \<open>i\<close>, read backwards from a state in which the call is in
  its loop and its channel open: it was so before the step; a step that reads the
  channel while a message is queued sends the message at the head; any other step leaves
  what is queued in place, adding at most to its end, and adds at most to what the call
  has sent.
\<close>

definition carries :: "nat \<Rightarrow> step \<Rightarrow> world \<Rightarrow> world \<Rightarrow> bool" where
  "carries i c w w' =
     (fst (calls w' ! i) = Looping \<and> \<not> closed (heap (server w') i) \<longrightarrow>
        fst (calls w ! i) = Looping \<and> \<not> closed (heap (server w) i) \<and>
        (if takes i c \<and> buf (heap (server w) i) \<noteq> []
         then buf (heap (server w) i) = hd (buf (heap (server w) i)) # buf (heap (server w') i) \<and>
              sent (snd (calls w' ! i)) = sent (snd (calls w ! i)) @ [hd (buf (heap (server w) i))]
         else (\<exists>extra. buf (heap (server w') i) = buf (heap (server w) i) @ extra) \<and>
              (\<exists>zs. sent (snd (calls w' ! i)) = sent (snd (calls w ! i)) @ zs)))"

text \<open>
  Where a message is, for a call that is in its loop with its channel open: among what
  the call has sent beyond \<open>before\<close>, or queued in the channel with fewer than \<open>k\<close>
  messages ahead of it.
\<close>

definition on_its_way :: "Message \<Rightarrow> Message list \<Rightarrow> nat \<Rightarrow> nat \<Rightarrow> world \<Rightarrow> bool" where
  "on_its_way msg before i k w =
     (fst (calls w ! i) = Looping \<and> \<not> closed (heap (server w) i) \<longrightarrow>
        (\<exists>xs. sent (snd (calls w ! i)) = before @ xs \<and>
           (msg \<in> set xs \<or>
            (\<exists>pre post. buf (heap (server w) i) = pre @ msg # post \<and> length pre < k))))"

text \<open>
  A run around one SendMessage: bob is streaming and one message of ann is queued for
  him when ann sends m9; between the first part of that call and its broadcast, bob's
  listener queues its copy of the first message; afterwards a tick, the listener's copy
  of m9, a JoinRoom and three reads of bob's channel follow.
\<close>

definition before_send :: "step list" where
  "before_send =
     [CallJoinRoom nofail ann_lobby, CallJoinRoom nofail bob_lobby,
      CallStreamMessages nofail bob_lobby noon True,
      CallSendMessage nofail ann_again ''m1'' noon]"

definition during_send :: "step list" where
  "during_send = [Published 0 (Payload ''m1'' False ToChannel)]"

definition after_send :: "step list" where
  "after_send =
     [Round 0 (Tick 1700000010000000000 True), Round 0 (Recv True),
      Published 0 (Payload ''m9'' False ToChannel), Round 0 (Recv True),
      CallJoinRoom nofail ann_lobby, Round 0 (Recv True)]"

definition later_message :: Message where
  "later_message = \<lparr>Id = ''m9'', UserId = ''ann'', RoomId = ''lobby'', Content = ''hello'',
                     Timestamp = 1700000001987\<rparr>"

definition bob_has_mail :: world where
  "bob_has_mail =
     run parse_example (before_send @ BeginSendMessage nofail ann_hello ''m9'' later # during_send)
       (boot empty_store)"

section \<open>Properties\<close>

subsection \<open>Input validation and the membership check\<close>

text \<open>
  C9. StreamMessages and LeaveRoom answer a request whose user_id or room_id is empty
  with InvalidArgument and leave the whole server as it was (store, registry, channels
  and log), whatever the store would have answered: no command of the call is reached.
\<close>

theorem empty_id_rejected_before_any_access:
  "user_id req = [] \<or> room_id req = [] \<Longrightarrow>
     (\<exists>m. open_stream fails req now ok s = (Rejected (Status InvalidArgument m), s)) \<and>
     (\<exists>m. StreamMessages fails req now ok evs s = (Refused (Status InvalidArgument m), s)) \<and>
     (\<exists>m. LeaveRoom fails req s = (Return (Inl (Status InvalidArgument m)), s))"
  by (auto simp: open_stream_def StreamMessages_def LeaveRoom_def)

theorem empty_id_rejected_witness:
  "(\<exists>m. StreamMessages (\<lambda>_. True) \<lparr>user_id = ''ann'', room_id = []\<rparr> noon True [CtxDone] fresh_server
          = (Refused (Status InvalidArgument m), fresh_server)) \<and>
   (\<exists>m. LeaveRoom (\<lambda>_. True) \<lparr>user_id = ''ann'', room_id = []\<rparr> fresh_server
          = (Return (Inl (Status InvalidArgument m)), fresh_server))"
  using empty_id_rejected_before_any_access
    [of "\<lparr>user_id = ''ann'', room_id = []\<rparr>" "\<lambda>_. True" noon True fresh_server "[CtxDone]"]
  by simp

subsection \<open>The registry under each operation\<close>

lemma wf_registry_alt:
  "wf_registry rs \<longleftrightarrow>
     distinct (map fst rs) \<and>
     (\<forall>room m. map_of rs room = Some m \<longrightarrow> distinct (map fst m) \<and> m \<noteq> [])"
  unfolding wf_registry_def by (fastforce simp: map_of_eq_Some_iff)

lemma wf_update:
  "wf_registry rs \<Longrightarrow> distinct (map fst m) \<Longrightarrow> m \<noteq> [] \<Longrightarrow> wf_registry (AList.update room m rs)"
  unfolding wf_registry_alt by (auto simp: distinct_update update_conv')

lemma wf_delete: "wf_registry rs \<Longrightarrow> wf_registry (AList.delete room rs)"
  unfolding wf_registry_alt by (auto simp: distinct_delete delete_conv' split: if_splits)

lemma lookup_update:
  "lookup (AList.update room m rs) room' user' =
     (if room' = room then map_of m user' else lookup rs room' user')"
  by (simp add: lookup_def update_conv')

lemma lookup_delete:
  "lookup (AList.delete room rs) room' user' =
     (if room' = room then None else lookup rs room' user')"
  by (simp add: lookup_def delete_conv')

lemma map_of_delete_Nil: "AList.delete k m = [] \<Longrightarrow> k' \<noteq> k \<Longrightarrow> map_of m k' = None"
  by (metis map_of_delete map_of.simps(1))

subsection \<open>cleanup_unregister\<close>

lemma cleanup_unregister_frame [simp]:
  "heap (cleanup_unregister st s) = heap s"
  "allocated (cleanup_unregister st s) = allocated s"
  "rdb (cleanup_unregister st s) = rdb s"
  "logs (cleanup_unregister st s) = logs s"
  by (auto simp: cleanup_unregister_def Let_def split: option.splits)

lemma lookup_cleanup_unregister:
  "lookup (roomStreams (cleanup_unregister st s)) room user =
     (if room = room_id (request st) \<and> user = user_id (request st) then None
      else lookup (roomStreams s) room user)"
  by (auto simp: cleanup_unregister_def lookup_def Let_def update_conv' delete_conv'
        map_of_delete_Nil split: option.splits)

lemma wf_cleanup_unregister:
  "wf_registry (roomStreams s) \<Longrightarrow> wf_registry (roomStreams (cleanup_unregister st s))"
  by (auto simp: cleanup_unregister_def Let_def wf_delete split: option.splits intro!: wf_update)
     (auto simp: wf_registry_alt distinct_delete)

subsection \<open>remove_stream\<close>

lemma remove_stream_None:
  "remove_stream room user s = None \<longleftrightarrow>
     (\<exists>c. lookup (roomStreams s) room user = Some c \<and> closed (heap s c))"
  by (auto simp: remove_stream_def lookup_def close_chan_def Let_def split: option.splits)

lemma remove_stream_frame:
  "remove_stream room user s = Some s' \<Longrightarrow>
     allocated s' = allocated s \<and> rdb s' = rdb s \<and> logs s' = logs s \<and>
     heap s' = (case lookup (roomStreams s) room user of
                  None \<Rightarrow> heap s
                | Some c \<Rightarrow> (heap s)(c := (heap s c)\<lparr>closed := True\<rparr>))"
  by (auto simp: remove_stream_def lookup_def close_chan_def Let_def split: option.splits if_splits)

lemma lookup_remove_stream:
  "remove_stream room user s = Some s' \<Longrightarrow>
   lookup (roomStreams s') room' user' =
     (if room' = room \<and> user' = user then None else lookup (roomStreams s) room' user')"
  by (auto simp: remove_stream_def lookup_def Let_def update_conv' delete_conv' close_chan_def
        map_of_delete_Nil split: option.splits if_splits)

lemma wf_remove_stream:
  "remove_stream room user s = Some s' \<Longrightarrow> wf_registry (roomStreams s) \<Longrightarrow> wf_registry (roomStreams s')"
  by (auto simp: remove_stream_def Let_def wf_delete close_chan_def split: option.splits if_splits intro!: wf_update)
     (auto simp: wf_registry_alt distinct_delete)

subsection \<open>register\<close>

lemma closed_retire: "closed (fst (retire ch))"
  by (auto simp: retire_def try_recv_def close_chan_def split: list.splits option.splits)

lemma register_frame:
  "fst (register room user s) = allocated s"
  "allocated (snd (register room user s)) = Suc (allocated s)"
  "rdb (snd (register room user s)) = rdb s"
  by (auto simp: register_def Let_def logf_def split: option.splits prod.splits)

lemma lookup_register:
  "lookup (roomStreams (snd (register room user s))) room' user' =
     (if room' = room \<and> user' = user then Some (allocated s) else lookup (roomStreams s) room' user')"
  by (auto simp: register_def Let_def logf_def lookup_def update_conv' split: option.splits prod.splits)

lemma wf_register:
  "wf_registry (roomStreams s) \<Longrightarrow> wf_registry (roomStreams (snd (register room user s)))"
  by (auto simp: register_def Let_def logf_def split: option.splits prod.splits intro!: wf_update)
     (auto simp: wf_registry_alt distinct_update update_conv')

lemma closed_register:
  "lookup (roomStreams s) room user \<noteq> Some (allocated s) \<Longrightarrow>
   closed (heap (snd (register room user s)) c) =
     (if c = allocated s then False
      else if lookup (roomStreams s) room user = Some c then True
      else closed (heap s c))"
  by (auto simp: register_def Let_def logf_def lookup_def update_conv' make_chan_def
        closed_retire[simplified fst_conv] split: option.splits prod.splits)
     (metis closed_retire fst_conv)+

subsection \<open>broadcast\<close>

lemma broadcast_loop_frame:
  "roomStreams (snd (broadcast_loop msg xs s)) = roomStreams s \<and>
   allocated (snd (broadcast_loop msg xs s)) = allocated s \<and>
   rdb (snd (broadcast_loop msg xs s)) = rdb s \<and>
   (\<forall>c. closed (heap (snd (broadcast_loop msg xs s)) c) = closed (heap s c))"
  by (induction msg xs s rule: broadcast_loop.induct)
     (auto simp: try_send_def logf_def split: send_result.splits if_splits)

lemma broadcast_loop_returns:
  "(\<And>u c. (u, c) \<in> set xs \<Longrightarrow> \<not> closed (heap s c)) \<Longrightarrow> fst (broadcast_loop msg xs s) = Return ()"
proof (induction xs arbitrary: s)
  case Nil
  then show ?case by simp
next
  case (Cons x xs)
  obtain u c where x: "x = (u, c)" by (cases x)
  have open_c: "\<not> closed (heap s c)" using Cons.prems x by auto
  show ?case
  proof (cases "length (buf (heap s c)) < capacity")
    case True
    have "fst (broadcast_loop msg xs (s\<lparr>heap := (heap s)(c := (heap s c)\<lparr>buf := buf (heap s c) @ [msg]\<rparr>)\<rparr>)) = Return ()"
      by (rule Cons.IH) (use Cons.prems in auto)
    then show ?thesis using True open_c x by (simp add: try_send_def)
  next
    case False
    have "fst (broadcast_loop msg xs (logf ''Channel full, dropping message'' s)) = Return ()"
      by (rule Cons.IH) (use Cons.prems in \<open>auto simp: logf_def\<close>)
    then show ?thesis using False open_c x by (simp add: try_send_def)
  qed
qed

lemma broadcastMessage_frame:
  "broadcastMessage msg s = (x, s') \<Longrightarrow>
   roomStreams s' = roomStreams s \<and> allocated s' = allocated s \<and> rdb s' = rdb s \<and>
   (\<forall>c. closed (heap s' c) = closed (heap s c))"
  using broadcast_loop_frame[of msg _ s]
  by (auto simp: broadcastMessage_def split: option.splits) (metis snd_conv)+

lemma broadcastMessage_returns:
  "(\<And>u c. (u, c) \<in> set (subscribers s (RoomId msg)) \<Longrightarrow> \<not> closed (heap s c)) \<Longrightarrow>
   fst (broadcastMessage msg s) = Return ()"
  by (auto simp: broadcastMessage_def subscribers_def split: option.splits intro!: broadcast_loop_returns)

subsection \<open>handlers\<close>

lemma recent_loop_frame:
  "recent_loop parse fails i ids acc s = (ms, s') \<Longrightarrow>
   roomStreams s' = roomStreams s \<and> allocated s' = allocated s \<and> heap s' = heap s \<and> rdb s' = rdb s"
  by (induction ids arbitrary: i acc s) (auto simp: logf_def split: sum.splits option.splits)

lemma JoinRoom_frame:
  "roomStreams (snd (JoinRoom parse fails req s)) = roomStreams s \<and>
   allocated (snd (JoinRoom parse fails req s)) = allocated s \<and>
   heap (snd (JoinRoom parse fails req s)) = heap s"
  by (auto simp: JoinRoom_def logf_def split: sum.splits prod.splits dest!: recent_loop_frame)

lemma SendMessage_accepted:
  assumes "user_id req \<noteq> []" "room_id req \<noteq> []" "content req \<noteq> []"
    and "query fails 0 (SIsMember (''room:'' @ room_id req @ '':users'') (user_id req)) (rdb s) = Inr True"
    and "cmd fails 1
           (HSet (''message:'' @ msgID)
              [(''user_id'', user_id req), (''room_id'', room_id req),
               (''content'', content req), (''timestamp'', RFC3339 now)]) (rdb s) = (Inr (), r1)"
    and "cmd fails 2 (LPush (''room:'' @ room_id req @ '':messages'') msgID) r1 = (Inr (), r2)"
    and "cmd fails 3 (LTrim (''room:'' @ room_id req @ '':messages'') 0 999) r2 = (t, r3)"
    and "cmd fails 4 (Publish (''room:'' @ room_id req) msgID) r3 = (p, r4)"
    and "msg = \<lparr>Id = msgID, UserId = user_id req, RoomId = room_id req,
                Content = content req, Timestamp = unix_milli (UnixNano now)\<rparr>"
    and "s3 = (case t of Inl e \<Rightarrow> logf ''Error trimming message list: %v'' s | Inr _ \<Rightarrow> s)"
    and "s4 = (case p of Inl e \<Rightarrow> logf ''Error publishing message: %v'' s3 | Inr _ \<Rightarrow> s3)"
  shows "SendMessage fails req msgID now s =
           (case broadcastMessage msg (s4\<lparr>rdb := r4\<rparr>) of
              (Panic x, s5) \<Rightarrow> (Panic x, s5)
            | (Return _, s5) \<Rightarrow> (Return (Inr \<lparr>Success = True, SentMessage = msg\<rparr>), s5))"
  using assms(1-8) unfolding assms(9-11) SendMessage_def by (simp add: Let_def)

lemma SendMessage_shape:
  "\<exists>s0. roomStreams s0 = roomStreams s \<and> heap s0 = heap s \<and> allocated s0 = allocated s \<and>
     ((\<exists>e. SendMessage fails req msgID now s = (Return (Inl e), s0)) \<or>
      (\<exists>msg. RoomId msg = room_id req \<and>
         SendMessage fails req msgID now s =
           (case broadcastMessage msg s0 of
              (Panic x, s5) \<Rightarrow> (Panic x, s5)
            | (Return _, s5) \<Rightarrow> (Return (Inr \<lparr>Success = True, SentMessage = msg\<rparr>), s5))))"
proof (cases "user_id req = [] \<or> room_id req = [] \<or> content req = []")
  case True
  then have "\<exists>e. SendMessage fails req msgID now s = (Return (Inl e), s)"
    by (auto simp: SendMessage_def)
  then show ?thesis by blast
next
  case nonempty: False
  show ?thesis
  proof (cases "query fails 0 (SIsMember (''room:'' @ room_id req @ '':users'') (user_id req)) (rdb s)")
    case (Inl e)
    then have "SendMessage fails req msgID now s =
        (Return (Inl (Status Internal ''failed to send message'')),
         logf ''Error checking if user is in room: %v'' s)"
      using nonempty by (simp add: SendMessage_def)
    then show ?thesis by (intro exI[of _ "logf ''Error checking if user is in room: %v'' s"]) (simp add: logf_def)
  next
    case (Inr isMember)
    show ?thesis
    proof (cases isMember)
      case False
      then have "SendMessage fails req msgID now s =
          (Return (Inl (Status PermissionDenied ''user is not in the room'')), s)"
        using nonempty Inr by (simp add: SendMessage_def)
      then show ?thesis by blast
    next
      case True
      obtain x1 r1 where c1: "cmd fails 1
           (HSet (''message:'' @ msgID)
              [(''user_id'', user_id req), (''room_id'', room_id req),
               (''content'', content req), (''timestamp'', RFC3339 now)]) (rdb s) = (x1, r1)"
        by (meson surj_pair)
      show ?thesis
      proof (cases x1)
        case (Inl e)
        then have "SendMessage fails req msgID now s =
          (Return (Inl (Status Internal ''failed to send message'')),
           logf ''Error storing message: %v'' s)"
          using nonempty Inr True c1 by (simp add: SendMessage_def)
        then show ?thesis by (intro exI[of _ "logf ''Error storing message: %v'' s"]) (simp add: logf_def)
      next
        case ok1: (Inr u1)
        obtain x2 r2 where c2: "cmd fails 2 (LPush (''room:'' @ room_id req @ '':messages'') msgID) r1 = (x2, r2)"
          by (meson surj_pair)
        show ?thesis
        proof (cases x2)
          case (Inl e)
          then have "SendMessage fails req msgID now s =
            (Return (Inl (Status Internal ''failed to send message'')),
             logf ''Error adding message to room: %v'' (s\<lparr>rdb := r1\<rparr>))"
            using nonempty Inr True c1 ok1 c2 by (simp add: SendMessage_def)
          then show ?thesis
            by (intro exI[of _ "logf ''Error adding message to room: %v'' (s\<lparr>rdb := r1\<rparr>)"]) (simp add: logf_def)
        next
          case ok2: (Inr u2)
          obtain t r3 where c3: "cmd fails 3 (LTrim (''room:'' @ room_id req @ '':messages'') 0 999) r2 = (t, r3)"
            by (meson surj_pair)
          obtain p r4 where c4: "cmd fails 4 (Publish (''room:'' @ room_id req) msgID) r3 = (p, r4)"
            by (meson surj_pair)
          define msg where "msg = \<lparr>Id = msgID, UserId = user_id req, RoomId = room_id req,
                Content = content req, Timestamp = unix_milli (UnixNano now)\<rparr>"
          define s3 where "s3 = (case t of Inl e \<Rightarrow> logf ''Error trimming message list: %v'' s | Inr _ \<Rightarrow> s)"
          define s4 where "s4 = (case p of Inl e \<Rightarrow> logf ''Error publishing message: %v'' s3 | Inr _ \<Rightarrow> s3)"
          have eq: "SendMessage fails req msgID now s =
           (case broadcastMessage msg (s4\<lparr>rdb := r4\<rparr>) of
              (Panic x, s5) \<Rightarrow> (Panic x, s5)
            | (Return _, s5) \<Rightarrow> (Return (Inr \<lparr>Success = True, SentMessage = msg\<rparr>), s5))"
            by (rule SendMessage_accepted[OF _ _ _ _ _ _ c3 c4 msg_def s3_def s4_def])
               (use nonempty Inr True c1 ok1 c2 ok2 in auto)
          have fr: "roomStreams (s4\<lparr>rdb := r4\<rparr>) = roomStreams s \<and> heap (s4\<lparr>rdb := r4\<rparr>) = heap s
              \<and> allocated (s4\<lparr>rdb := r4\<rparr>) = allocated s"
            by (auto simp: s4_def s3_def logf_def split: sum.splits)
          have "RoomId msg = room_id req" by (simp add: msg_def)
          then show ?thesis using eq fr by blast
        qed
      qed
    qed
  qed
qed


lemma SendMessage_frame:
  "roomStreams (snd (SendMessage fails req msgID now s)) = roomStreams s \<and>
   allocated (snd (SendMessage fails req msgID now s)) = allocated s \<and>
   (\<forall>c. closed (heap (snd (SendMessage fails req msgID now s)) c) = closed (heap s c))"
proof -
  obtain s0 where s0: "roomStreams s0 = roomStreams s" "heap s0 = heap s" "allocated s0 = allocated s"
    and d: "(\<exists>e. SendMessage fails req msgID now s = (Return (Inl e), s0)) \<or>
      (\<exists>msg. RoomId msg = room_id req \<and>
         SendMessage fails req msgID now s =
           (case broadcastMessage msg s0 of
              (Panic x, s5) \<Rightarrow> (Panic x, s5)
            | (Return _, s5) \<Rightarrow> (Return (Inr \<lparr>Success = True, SentMessage = msg\<rparr>), s5)))"
    using SendMessage_shape[of s fails req msgID now] by blast
  from d show ?thesis
  proof
    assume "\<exists>e. SendMessage fails req msgID now s = (Return (Inl e), s0)"
    then show ?thesis using s0 by auto
  next
    assume "\<exists>msg. RoomId msg = room_id req \<and>
         SendMessage fails req msgID now s =
           (case broadcastMessage msg s0 of
              (Panic x, s5) \<Rightarrow> (Panic x, s5)
            | (Return _, s5) \<Rightarrow> (Return (Inr \<lparr>Success = True, SentMessage = msg\<rparr>), s5))"
    then obtain msg where m: "SendMessage fails req msgID now s =
           (case broadcastMessage msg s0 of
              (Panic x, s5) \<Rightarrow> (Panic x, s5)
            | (Return _, s5) \<Rightarrow> (Return (Inr \<lparr>Success = True, SentMessage = msg\<rparr>), s5))" by blast
    obtain x s5 where b: "broadcastMessage msg s0 = (x, s5)" by (cases "broadcastMessage msg s0")
    have "snd (SendMessage fails req msgID now s) = s5"
      using m b by (cases x) auto
    then show ?thesis using broadcastMessage_frame[OF b] s0 by simp
  qed
qed

lemma SendMessage_returns:
  assumes "\<And>u c. (u, c) \<in> set (subscribers s (room_id req)) \<Longrightarrow> \<not> closed (heap s c)"
  shows "\<exists>r. fst (SendMessage fails req msgID now s) = Return r"
proof -
  obtain s0 where s0: "roomStreams s0 = roomStreams s" "heap s0 = heap s" "allocated s0 = allocated s"
    and d: "(\<exists>e. SendMessage fails req msgID now s = (Return (Inl e), s0)) \<or>
      (\<exists>msg. RoomId msg = room_id req \<and>
         SendMessage fails req msgID now s =
           (case broadcastMessage msg s0 of
              (Panic x, s5) \<Rightarrow> (Panic x, s5)
            | (Return _, s5) \<Rightarrow> (Return (Inr \<lparr>Success = True, SentMessage = msg\<rparr>), s5)))"
    using SendMessage_shape[of s fails req msgID now] by blast
  from d show ?thesis
  proof
    assume "\<exists>e. SendMessage fails req msgID now s = (Return (Inl e), s0)"
    then show ?thesis by auto
  next
    assume "\<exists>msg. RoomId msg = room_id req \<and>
         SendMessage fails req msgID now s =
           (case broadcastMessage msg s0 of
              (Panic x, s5) \<Rightarrow> (Panic x, s5)
            | (Return _, s5) \<Rightarrow> (Return (Inr \<lparr>Success = True, SentMessage = msg\<rparr>), s5))"
    then obtain msg where r: "RoomId msg = room_id req" and m: "SendMessage fails req msgID now s =
           (case broadcastMessage msg s0 of
              (Panic x, s5) \<Rightarrow> (Panic x, s5)
            | (Return _, s5) \<Rightarrow> (Return (Inr \<lparr>Success = True, SentMessage = msg\<rparr>), s5))" by blast
    have "fst (broadcastMessage msg s0) = Return ()"
      by (rule broadcastMessage_returns) (use assms s0 r in \<open>auto simp: subscribers_def\<close>)
    then show ?thesis using m by (cases "broadcastMessage msg s0") auto
  qed
qed

subsection \<open>LeaveRoom\<close>

lemma LeaveRoom_shape:
  "(\<exists>e s0. LeaveRoom fails req s = (Return (Inl e), s0) \<and> roomStreams s0 = roomStreams s \<and>
       heap s0 = heap s \<and> allocated s0 = allocated s) \<or>
   (\<exists>r2. LeaveRoom fails req s =
      (case remove_stream (room_id req) (user_id req) (s\<lparr>rdb := r2\<rparr>) of
         None \<Rightarrow> (Panic ''close of closed channel'', s\<lparr>rdb := r2\<rparr>)
       | Some s' \<Rightarrow> (Return (Inr \<lparr>Success = True\<rparr>), s')))"
  unfolding LeaveRoom_def
  by (auto simp: logf_def split: prod.splits sum.splits)

subsection \<open>the pieces of StreamMessages\<close>

lemma open_stream_shape:
  "(\<exists>e s0. open_stream fails req now ok s = (Rejected e, s0) \<and> roomStreams s0 = roomStreams s \<and>
       heap s0 = heap s \<and> allocated s0 = allocated s) \<or>
   (\<exists>st l. msgChan st = allocated s \<and> request st = req \<and>
      (open_stream fails req now ok s = (Opened st, snd (register (room_id req) (user_id req) s))
       \<or> open_stream fails req now ok s =
            (Failed TransportError st, logf l (snd (register (room_id req) (user_id req) s)))))"
  unfolding open_stream_def
  by (auto simp: logf_def Let_def register_frame split: prod.splits sum.splits)
     (metis fst_conv snd_conv register_frame(1))+

lemma loop_step_frame:
  "loop_step ev st s = (r, st', s') \<Longrightarrow>
   request st' = request st \<and> msgChan st' = msgChan st \<and>
   roomStreams s' = roomStreams s \<and> allocated s' = allocated s \<and>
   (\<forall>c. closed (heap s' c) = closed (heap s c))"
  by (auto simp: loop_step_def logf_def try_recv_def Let_def
        split: event.splits if_splits option.splits list.splits)

lemma listener_step_frame:
  "listener_step parse d st s = (st', s') \<Longrightarrow>
   request st' = request st \<and> msgChan st' = msgChan st \<and>
   roomStreams s' = roomStreams s \<and> allocated s' = allocated s \<and>
   (\<forall>c. closed (heap s' c) = closed (heap s c))"
  by (auto simp: listener_step_def logf_def try_send_def
        split: if_splits option.splits sum.splits send_result.splits delivery.splits offer.splits)

lemma cancel_redis_frame:
  "cancel_redis st s = (st', s') \<Longrightarrow>
   request st' = request st \<and> msgChan st' = msgChan st \<and>
   roomStreams s' = roomStreams s \<and> allocated s' = allocated s \<and> heap s' = heap s"
  by (auto simp: cancel_redis_def logf_def)

lemma cleanup_close_frame:
  "cleanup_close st s = (st', s') \<Longrightarrow>
   request st' = request st \<and> msgChan st' = msgChan st \<and>
   roomStreams s' = roomStreams s \<and> allocated s' = allocated s \<and>
   (\<forall>c. closed (heap s' c) = (closed (heap s c) \<or> (c = msgChan st \<and> \<not> closedFlag st)))"
  by (auto simp: cleanup_close_def logf_def close_chan_def Let_def split: if_splits option.splits)

lemma registry_ok_boot: "registry_ok (boot r)"
  by (simp add: registry_ok_def boot_def NewChatCloudServer_def wf_registry_def lookup_def)

lemma registry_okD:
  assumes "registry_ok w" "lookup (roomStreams (server w)) room user = Some c"
  shows "c < length (calls w)" "\<not> closed (heap (server w) c)"
    "fst (calls w ! c) = Looping \<or> fst (calls w ! c) = Returning"
    "room_id (request (snd (calls w ! c))) = room" "user_id (request (snd (calls w ! c))) = user"
  using assms unfolding registry_ok_def by blast+

lemma registry_okI:
  assumes "\<not> crashed w" "wf_registry (roomStreams (server w))"
    "allocated (server w) = length (calls w)"
    "\<And>i. i < length (calls w) \<Longrightarrow> msgChan (snd (calls w ! i)) = i"
    "\<And>room user c. lookup (roomStreams (server w)) room user = Some c \<Longrightarrow>
         c < length (calls w) \<and>
         \<not> closed (heap (server w) c) \<and>
         (fst (calls w ! c) = Looping \<or> fst (calls w ! c) = Returning) \<and>
         room_id (request (snd (calls w ! c))) = room \<and>
         user_id (request (snd (calls w ! c))) = user"
  shows "registry_ok w"
  using assms unfolding registry_ok_def by blast

lemma registry_ok_basic:
  assumes "registry_ok w"
  shows "\<not> crashed w" "wf_registry (roomStreams (server w))" "allocated (server w) = length (calls w)"
    "\<And>i. i < length (calls w) \<Longrightarrow> msgChan (snd (calls w ! i)) = i"
  using assms unfolding registry_ok_def by blast+

lemma registry_ok_frame:
  assumes "registry_ok w" "roomStreams s' = roomStreams (server w)"
    "allocated s' = allocated (server w)" "\<And>c. closed (heap s' c) = closed (heap (server w) c)"
  shows "registry_ok (w\<lparr>server := s'\<rparr>)"
  using assms unfolding registry_ok_def by simp

lemma registry_ok_call_update:
  assumes "registry_ok w" "roomStreams s' = roomStreams (server w)"
    "allocated s' = allocated (server w)" "\<And>c. closed (heap s' c) = closed (heap (server w) c)"
    "i < length (calls w)" "msgChan st' = msgChan (snd (calls w ! i))"
    "request st' = request (snd (calls w ! i))" "ph = Looping \<or> ph = Returning"
  shows "registry_ok (w\<lparr>server := s', calls := (calls w)[i := (ph, st')]\<rparr>)"
  using assms unfolding registry_ok_def by (auto simp: nth_list_update)

lemma registry_ok_unregister:
  assumes "registry_ok w" "i < length (calls w)" "fst (calls w ! i) = Returning"
  shows "registry_ok (w\<lparr>server := cleanup_unregister (snd (calls w ! i)) (server w),
                         calls := (calls w)[i := (Unregistered, snd (calls w ! i))]\<rparr>)"
  using assms unfolding registry_ok_def
  by (auto simp: nth_list_update lookup_cleanup_unregister wf_cleanup_unregister split: if_splits)

lemma registry_ok_close_own:
  assumes ok: "registry_ok w" and i: "i < length (calls w)" and ph: "fst (calls w ! i) = Unregistered"
    and cc: "cleanup_close (snd (calls w ! i)) (server w) = (st', s')"
  shows "registry_ok (w\<lparr>server := s', calls := (calls w)[i := (Done, st')]\<rparr>)"
proof (rule registry_okI)
  note f = cleanup_close_frame[OF cc]
  note b = registry_ok_basic[OF ok]
  have own: "msgChan (snd (calls w ! i)) = i" using b(4) i by simp
  let ?w = "w\<lparr>server := s', calls := (calls w)[i := (Done, st')]\<rparr>"
  show "\<not> crashed ?w" using b by simp
  show "wf_registry (roomStreams (server ?w))" using b f by simp
  show "allocated (server ?w) = length (calls ?w)" using b f by simp
  show "msgChan (snd (calls ?w ! j)) = j" if "j < length (calls ?w)" for j
    using that b(4)[of j] f own by (cases "j = i") (auto simp: nth_list_update)
  show "c < length (calls ?w) \<and> \<not> closed (heap (server ?w) c) \<and>
         (fst (calls ?w ! c) = Looping \<or> fst (calls ?w ! c) = Returning) \<and>
         room_id (request (snd (calls ?w ! c))) = room \<and>
         user_id (request (snd (calls ?w ! c))) = user"
    if "lookup (roomStreams (server ?w)) room user = Some c" for room user c
  proof -
    have l: "lookup (roomStreams (server w)) room user = Some c" using that f by simp
    note d = registry_okD[OF ok l]
    have "c \<noteq> i" using d(3) ph by auto
    then show ?thesis using d f own by (auto simp: nth_list_update)
  qed
qed

lemma registry_ok_leave:
  assumes ok: "registry_ok w"
  shows "\<exists>s'. remove_stream room user (server w\<lparr>rdb := r2\<rparr>) = Some s' \<and> registry_ok (w\<lparr>server := s'\<rparr>)"
proof -
  let ?s = "server w\<lparr>rdb := r2\<rparr>"
  note b = registry_ok_basic[OF ok]
  have "remove_stream room user ?s \<noteq> None"
    using registry_okD(2)[OF ok] by (auto simp: remove_stream_None)
  then obtain s' where s': "remove_stream room user ?s = Some s'" by blast
  note fr = remove_stream_frame[OF s'] and lk = lookup_remove_stream[OF s'] and wf = wf_remove_stream[OF s']
  have "registry_ok (w\<lparr>server := s'\<rparr>)"
  proof (rule registry_okI)
    let ?w = "w\<lparr>server := s'\<rparr>"
    show "\<not> crashed ?w" using b by simp
    show "wf_registry (roomStreams (server ?w))" using b wf by simp
    show "allocated (server ?w) = length (calls ?w)" using b fr by simp
    show "msgChan (snd (calls ?w ! j)) = j" if "j < length (calls ?w)" for j
      using that b(4)[of j] by simp
    show "c < length (calls ?w) \<and> \<not> closed (heap (server ?w) c) \<and>
         (fst (calls ?w ! c) = Looping \<or> fst (calls ?w ! c) = Returning) \<and>
         room_id (request (snd (calls ?w ! c))) = room' \<and>
         user_id (request (snd (calls ?w ! c))) = user'"
      if "lookup (roomStreams (server ?w)) room' user' = Some c" for room' user' c
    proof -
      have ne: "\<not> (room' = room \<and> user' = user)" and l: "lookup (roomStreams (server w)) room' user' = Some c"
        using that lk[of room' user'] by (auto split: if_splits)
      note d = registry_okD[OF ok l]
      have "closed (heap s' c) = closed (heap (server w) c)"
      proof (cases "lookup (roomStreams (server w)) room user")
        case None
        then show ?thesis using fr by simp
      next
        case (Some c')
        note d' = registry_okD[OF ok Some]
        have "c' \<noteq> c" using d d' ne by auto
        then show ?thesis using fr Some by simp
      qed
      then show ?thesis using d by simp
    qed
  qed
  then show ?thesis using s' by blast
qed

lemma registry_ok_register:
  assumes ok: "registry_ok w" and mc: "msgChan st = allocated (server w)"
    and rq: "room_id (request st) = room" "user_id (request st) = user"
    and rs: "roomStreams s' = roomStreams (snd (register room user (server w)))"
    and al: "allocated s' = allocated (snd (register room user (server w)))"
    and cl: "\<And>c. closed (heap s' c) = closed (heap (snd (register room user (server w))) c)"
    and ph: "ph = Looping \<or> ph = Returning"
  shows "registry_ok (w\<lparr>server := s', calls := calls w @ [(ph, st)]\<rparr>)"
proof (rule registry_okI)
  note b = registry_ok_basic[OF ok]
  have fresh: "lookup (roomStreams (server w)) room user \<noteq> Some (allocated (server w))"
    using registry_okD(1)[OF ok] b(3) by fastforce
  note cr = closed_register[OF fresh]
  let ?w = "w\<lparr>server := s', calls := calls w @ [(ph, st)]\<rparr>"
  show "\<not> crashed ?w" using b by simp
  show "wf_registry (roomStreams (server ?w))" using b rs by (simp add: wf_register)
  show "allocated (server ?w) = length (calls ?w)" using b al by (simp add: register_frame)
  show "msgChan (snd (calls ?w ! j)) = j" if "j < length (calls ?w)" for j
    using that b(4)[of j] b(3) mc by (auto simp: nth_append)
  show "c < length (calls ?w) \<and> \<not> closed (heap (server ?w) c) \<and>
         (fst (calls ?w ! c) = Looping \<or> fst (calls ?w ! c) = Returning) \<and>
         room_id (request (snd (calls ?w ! c))) = room' \<and>
         user_id (request (snd (calls ?w ! c))) = user'"
    if "lookup (roomStreams (server ?w)) room' user' = Some c" for room' user' c
  proof (cases "room' = room \<and> user' = user")
    case True
    then have "c = length (calls w)" using that rs b(3) by (simp add: lookup_register)
    then show ?thesis using True rq ph cl cr b(3) by (simp add: nth_append)
  next
    case False
    then have l: "lookup (roomStreams (server w)) room' user' = Some c"
      using that rs by (auto simp: lookup_register split: if_splits)
    note d = registry_okD[OF ok l]
    have "lookup (roomStreams (server w)) room user \<noteq> Some c"
    proof
      assume a: "lookup (roomStreams (server w)) room user = Some c"
      show False using registry_okD(4,5)[OF ok a] d False by simp
    qed
    then have "closed (heap s' c) = closed (heap (server w) c)"
      using cl cr d(1) b(3) by simp
    then show ?thesis using d by (simp add: nth_append)
  qed
qed

lemma subscribers_open:
  assumes ok: "registry_ok w" and m: "(u, c) \<in> set (subscribers (server w) room)"
  shows "lookup (roomStreams (server w)) room u = Some c"
proof -
  obtain m' where m': "map_of (roomStreams (server w)) room = Some m'" and in': "(u, c) \<in> set m'"
    using m by (cases "map_of (roomStreams (server w)) room") (auto simp: subscribers_def)
  have "distinct (map fst m')"
    using registry_ok_basic(2)[OF ok] m' by (auto simp: wf_registry_alt)
  then have "map_of m' u = Some c" using in' by simp
  then show ?thesis using m' by (simp add: lookup_def)
qed

lemma exec_JoinRoom:
  assumes "registry_ok w" shows "registry_ok (exec parse (CallJoinRoom fails req) w)"
proof -
  have "\<not> crashed w" using assms by (simp add: registry_ok_def)
  then have "exec parse (CallJoinRoom fails req) w = w\<lparr>server := snd (JoinRoom parse fails req (server w))\<rparr>"
    by (simp add: exec_def)
  then show ?thesis using registry_ok_frame[OF assms] JoinRoom_frame by simp
qed

lemma exec_SendMessage:
  assumes ok: "registry_ok w" shows "registry_ok (exec parse (CallSendMessage fails req msgID now) w)"
proof -
  have nc: "\<not> crashed w" using ok by (simp add: registry_ok_def)
  have "\<exists>r. fst (SendMessage fails req msgID now (server w)) = Return r"
    by (rule SendMessage_returns) (use subscribers_open[OF ok] registry_okD(2)[OF ok] in blast)
  then obtain r s' where eq: "SendMessage fails req msgID now (server w) = (Return r, s')"
    by (metis prod.collapse)
  have "exec parse (CallSendMessage fails req msgID now) w = w\<lparr>server := s'\<rparr>"
    using nc eq by (simp add: exec_def)
  moreover have "s' = snd (SendMessage fails req msgID now (server w))" using eq by simp
  ultimately show ?thesis using registry_ok_frame[OF ok] SendMessage_frame by simp
qed

lemma exec_LeaveRoom:
  assumes ok: "registry_ok w" shows "registry_ok (exec parse (CallLeaveRoom fails req) w)"
proof -
  have nc: "\<not> crashed w" using ok by (simp add: registry_ok_def)
  consider (err) e s0 where "LeaveRoom fails req (server w) = (Return (Inl e), s0)"
      "roomStreams s0 = roomStreams (server w)" "heap s0 = heap (server w)" "allocated s0 = allocated (server w)"
    | (go) r2 where "LeaveRoom fails req (server w) =
      (case remove_stream (room_id req) (user_id req) (server w\<lparr>rdb := r2\<rparr>) of
         None \<Rightarrow> (Panic ''close of closed channel'', server w\<lparr>rdb := r2\<rparr>)
       | Some s' \<Rightarrow> (Return (Inr \<lparr>Success = True\<rparr>), s'))"
    using LeaveRoom_shape[of fails req "server w"] by blast
  then show ?thesis
  proof cases
    case err
    then have "exec parse (CallLeaveRoom fails req) w = w\<lparr>server := s0\<rparr>"
      using nc by (simp add: exec_def)
    then show ?thesis using registry_ok_frame[OF ok] err by simp
  next
    case go
    obtain s' where s': "remove_stream (room_id req) (user_id req) (server w\<lparr>rdb := r2\<rparr>) = Some s'"
      and ok': "registry_ok (w\<lparr>server := s'\<rparr>)"
      using registry_ok_leave[OF ok] by blast
    have "exec parse (CallLeaveRoom fails req) w = w\<lparr>server := s'\<rparr>"
      using nc go s' by (simp add: exec_def)
    then show ?thesis using ok' by simp
  qed
qed

lemma exec_StreamMessages:
  assumes ok: "registry_ok w" shows "registry_ok (exec parse (CallStreamMessages fails req now sok) w)"
proof -
  have nc: "\<not> crashed w" using ok by (simp add: registry_ok_def)
  let ?reg = "snd (register (room_id req) (user_id req) (server w))"
  consider (rej) e s0 where "open_stream fails req now sok (server w) = (Rejected e, s0)"
      "roomStreams s0 = roomStreams (server w)" "heap s0 = heap (server w)" "allocated s0 = allocated (server w)"
    | (opened) st where "msgChan st = allocated (server w)" "request st = req"
         "open_stream fails req now sok (server w) = (Opened st, ?reg)"
    | (failed) st l where "msgChan st = allocated (server w)" "request st = req"
         "open_stream fails req now sok (server w) = (Failed TransportError st, logf l ?reg)"
    using open_stream_shape[of fails req now sok "server w"] by blast
  then show ?thesis
  proof cases
    case rej
    then have "exec parse (CallStreamMessages fails req now sok) w = w\<lparr>server := s0\<rparr>"
      using nc by (simp add: exec_def)
    then show ?thesis using registry_ok_frame[OF ok] rej by simp
  next
    case opened
    then have "exec parse (CallStreamMessages fails req now sok) w
        = w\<lparr>server := ?reg, calls := calls w @ [(Looping, st)]\<rparr>"
      using nc by (simp add: exec_def)
    moreover have "registry_ok (w\<lparr>server := ?reg, calls := calls w @ [(Looping, st)]\<rparr>)"
      by (rule registry_ok_register[OF ok opened(1)]) (use opened in auto)
    ultimately show ?thesis by simp
  next
    case failed
    obtain st1 s1 where c: "cancel_redis st (logf l ?reg) = (st1, s1)" by (meson surj_pair)
    note f = cancel_redis_frame[OF c]
    have "exec parse (CallStreamMessages fails req now sok) w
        = w\<lparr>server := s1, calls := calls w @ [(Returning, st1)]\<rparr>"
      using nc failed c by (simp add: exec_def)
    moreover have "registry_ok (w\<lparr>server := s1, calls := calls w @ [(Returning, st1)]\<rparr>)"
      by (rule registry_ok_register[OF ok, where room="room_id req" and user="user_id req"])
         (use failed f in \<open>auto simp: logf_def\<close>)
    ultimately show ?thesis by simp
  qed
qed

lemma exec_Round:
  assumes ok: "registry_ok w" shows "registry_ok (exec parse (Round i ev) w)"
proof (cases "i < length (calls w) \<and> fst (calls w ! i) = Looping")
  case False
  then show ?thesis using ok by (auto simp: exec_def)
next
  case True
  have nc: "\<not> crashed w" using ok by (simp add: registry_ok_def)
  obtain r st' s' where ls: "loop_step ev (snd (calls w ! i)) (server w) = (r, st', s')"
    by (metis prod_cases3)
  note f = loop_step_frame[OF ls]
  show ?thesis
  proof (cases r)
    case None
    then have "exec parse (Round i ev) w = w\<lparr>server := s', calls := (calls w)[i := (Looping, st')]\<rparr>"
      using nc True ls by (simp add: exec_def)
    moreover have "registry_ok (w\<lparr>server := s', calls := (calls w)[i := (Looping, st')]\<rparr>)"
      by (rule registry_ok_call_update[OF ok]) (use f True in auto)
    ultimately show ?thesis by simp
  next
    case (Some e)
    obtain st1 s1 where c: "cancel_redis st' s' = (st1, s1)" by (meson surj_pair)
    note g = cancel_redis_frame[OF c]
    have "exec parse (Round i ev) w = w\<lparr>server := s1, calls := (calls w)[i := (Returning, st1)]\<rparr>"
      using nc True ls Some c by (simp add: exec_def)
    moreover have "registry_ok (w\<lparr>server := s1, calls := (calls w)[i := (Returning, st1)]\<rparr>)"
      by (rule registry_ok_call_update[OF ok]) (use f g True in auto)
    ultimately show ?thesis by simp
  qed
qed

lemma registry_ok_listener:
  assumes "registry_ok w" "roomStreams s' = roomStreams (server w)"
    "allocated s' = allocated (server w)" "\<And>c. closed (heap s' c) = closed (heap (server w) c)"
    "i < length (calls w)" "msgChan st' = msgChan (snd (calls w ! i))"
    "request st' = request (snd (calls w ! i))"
  shows "registry_ok (w\<lparr>server := s', calls := (calls w)[i := (fst (calls w ! i), st')]\<rparr>)"
  using assms unfolding registry_ok_def by (auto simp: nth_list_update)

lemma exec_Published:
  assumes ok: "registry_ok w" shows "registry_ok (exec parse (Published i d) w)"
proof (cases "i < length (calls w)")
  case False
  then show ?thesis using ok by (auto simp: exec_def)
next
  case True
  have nc: "\<not> crashed w" using ok by (simp add: registry_ok_def)
  obtain st' s' where ls: "listener_step parse d (snd (calls w ! i)) (server w) = (st', s')"
    by (meson surj_pair)
  note f = listener_step_frame[OF ls]
  have "exec parse (Published i d) w =
          w\<lparr>server := s', calls := (calls w)[i := (fst (calls w ! i), st')]\<rparr>"
    using nc True ls by (simp add: exec_def)
  moreover have "registry_ok (w\<lparr>server := s', calls := (calls w)[i := (fst (calls w ! i), st')]\<rparr>)"
    by (rule registry_ok_listener[OF ok]) (use f True in auto)
  ultimately show ?thesis by simp
qed

lemma exec_Unregister:
  assumes ok: "registry_ok w" shows "registry_ok (exec parse (Unregister i) w)"
proof (cases "i < length (calls w) \<and> fst (calls w ! i) = Returning")
  case False
  then show ?thesis using ok by (auto simp: exec_def)
next
  case True
  have nc: "\<not> crashed w" using ok by (simp add: registry_ok_def)
  then show ?thesis using registry_ok_unregister[OF ok, of i] True by (simp add: exec_def)
qed

lemma exec_CloseOwn:
  assumes ok: "registry_ok w" shows "registry_ok (exec parse (CloseOwn i) w)"
proof (cases "i < length (calls w) \<and> fst (calls w ! i) = Unregistered")
  case False
  then show ?thesis using ok by (auto simp: exec_def)
next
  case True
  have nc: "\<not> crashed w" using ok by (simp add: registry_ok_def)
  obtain st' s' where cc: "cleanup_close (snd (calls w ! i)) (server w) = (st', s')" by (meson surj_pair)
  have "registry_ok (w\<lparr>server := s', calls := (calls w)[i := (Done, st')]\<rparr>)"
    by (rule registry_ok_close_own[OF ok _ _ cc]) (use True in auto)
  then show ?thesis using True nc cc by (simp add: exec_def)
qed

lemma SendMessage_begin_frame:
  "roomStreams (snd (SendMessage_begin fails req msgID now s)) = roomStreams s \<and>
   allocated (snd (SendMessage_begin fails req msgID now s)) = allocated s \<and>
   heap (snd (SendMessage_begin fails req msgID now s)) = heap s"
  by (auto simp: SendMessage_begin_def logf_def Let_def split: sum.splits prod.splits)

lemma SendMessage_end_frame:
  "SendMessage_end msg s = (x, s') \<Longrightarrow>
   roomStreams s' = roomStreams s \<and> allocated s' = allocated s \<and> rdb s' = rdb s \<and>
   (\<forall>c. closed (heap s' c) = closed (heap s c))"
  using broadcastMessage_frame[of msg s]
  by (cases "broadcastMessage msg s") (auto simp: SendMessage_end_def split: outcome.splits)

lemma exec_BeginSendMessage:
  assumes "registry_ok w" shows "registry_ok (exec parse (BeginSendMessage fails req msgID now) w)"
proof -
  have "\<not> crashed w" using assms by (simp add: registry_ok_def)
  then have "exec parse (BeginSendMessage fails req msgID now) w =
      w\<lparr>server := snd (SendMessage_begin fails req msgID now (server w))\<rparr>"
    by (simp add: exec_def)
  then show ?thesis using registry_ok_frame[OF assms] SendMessage_begin_frame by simp
qed

lemma SendMessage_end_returns:
  assumes ok: "registry_ok w"
  shows "SendMessage_end msg (server w) =
           (Return (Inr \<lparr>Success = True, SentMessage = msg\<rparr>), snd (broadcastMessage msg (server w)))"
proof -
  have "fst (broadcastMessage msg (server w)) = Return ()"
    by (rule broadcastMessage_returns) (use subscribers_open[OF ok] registry_okD(2)[OF ok] in blast)
  then show ?thesis
    by (cases "broadcastMessage msg (server w)") (simp add: SendMessage_end_def)
qed

lemma exec_EndSendMessage:
  assumes ok: "registry_ok w" shows "registry_ok (exec parse (EndSendMessage msg) w)"
proof -
  have nc: "\<not> crashed w" using ok by (simp add: registry_ok_def)
  let ?s = "snd (broadcastMessage msg (server w))"
  have e: "exec parse (EndSendMessage msg) w = w\<lparr>server := ?s\<rparr>"
    using nc SendMessage_end_returns[OF ok, of msg] by (simp add: exec_def)
  have "registry_ok (w\<lparr>server := ?s\<rparr>)"
    by (rule registry_ok_frame[OF ok])
       (use broadcastMessage_frame[of msg "server w" "fst (broadcastMessage msg (server w))" ?s] in auto)
  then show ?thesis using e by simp
qed

lemma registry_ok_exec: "registry_ok w \<Longrightarrow> registry_ok (exec parse c w)"
  by (cases c) (simp_all add: exec_JoinRoom exec_SendMessage exec_LeaveRoom exec_StreamMessages
      exec_Round exec_Published exec_Unregister exec_CloseOwn exec_BeginSendMessage
      exec_EndSendMessage)

lemma registry_ok_run: "registry_ok w \<Longrightarrow> registry_ok (run parse cs w)"
  by (induction cs arbitrary: w) (simp_all add: registry_ok_exec)

lemmas eval_defs = run.simps exec_def JoinRoom_def SendMessage_def LeaveRoom_def open_stream_def
  StreamMessages_def cmd_def query_def SAdd_def SRem_def SIsMember_def LRange_def LTrim_def LPush_def
  HSet_def HGetAll_def Publish_def lrange_def recent_loop.simps register_def retire_def
  remove_stream_def cleanup_unregister_def cleanup_close_def cancel_redis_def deferred_def
  loop_step_def listener_step_def broadcastMessage_def try_send_def try_recv_def close_chan_def
  make_chan_def logf_def Let_def NewChatCloudServer_def boot_def empty_store_def fresh_server_def
  ann_lobby_def ann_hello_def noon_def later_def nofail_def ann_streaming_def
  SendMessage_begin_def SendMessage_end_def

subsection \<open>SendMessage and StreamMessages refuse before acting\<close>

lemma stream_loop_error:
  "stream_loop evs st s = (Some (Some e), st', s') \<Longrightarrow>
   e = TransportError \<or> e = Status Internal ''redis subscription error''"
proof (induction evs arbitrary: st s)
  case Nil
  then show ?case by simp
next
  case (Cons ev evs)
  obtain r st1 s1 where l: "loop_step ev st s = (r, st1, s1)" by (metis prod_cases3)
  show ?case
  proof (cases r)
    case None
    then show ?thesis using Cons l by simp
  next
    case (Some x)
    then have "loop_step ev st s = (Some (Some e), st', s')" using Cons.prems l by simp
    then show ?thesis
      by (auto simp: loop_step_def Let_def try_recv_def split: event.splits if_splits list.splits)
  qed
qed

lemma open_stream_error:
  "open_stream fails req now ok s = (Rejected e, s') \<Longrightarrow> e \<noteq> Status NotFound m"
  "open_stream fails req now ok s = (Failed e st, s') \<Longrightarrow> e = TransportError"
  by (auto simp: open_stream_def Let_def split: if_splits sum.splits prod.splits)

lemma StreamMessages_never_NotFound:
  "fst (StreamMessages fails req now ok evs s) \<noteq> Refused (Status NotFound m) \<and>
   fst (StreamMessages fails req now ok evs s) \<noteq> Ended (Some (Status NotFound m)) st"
proof -
  obtain res s1 where o: "open_stream fails req now ok s = (res, s1)" by (meson surj_pair)
  show ?thesis
  proof (cases res)
    case (Rejected e)
    then show ?thesis using o open_stream_error(1)[of fails req now ok s e s1 m]
      by (simp add: StreamMessages_def)
  next
    case (Failed e st0)
    then show ?thesis using o open_stream_error(2)[of fails req now ok s e st0 s1]
      by (auto simp: StreamMessages_def split: prod.splits)
  next
    case (Opened st0)
    obtain r st1 s2 where l: "stream_loop evs st0 s1 = (r, st1, s2)" by (metis prod_cases3)
    show ?thesis
    proof (cases r)
      case None
      then show ?thesis using o Opened l by (simp add: StreamMessages_def)
    next
      case (Some x)
      show ?thesis
      proof (cases x)
        case None
        then show ?thesis using o Opened l Some by (auto simp: StreamMessages_def split: prod.splits)
      next
        case inner: (Some e)
        have "e = TransportError \<or> e = Status Internal ''redis subscription error''"
          using stream_loop_error[of evs st0 s1 e st1 s2] l Some inner by simp
        then show ?thesis using o Opened l Some inner by (auto simp: StreamMessages_def split: prod.splits)
      qed
    qed
  qed
qed

lemma SendMessage_never_NotFound:
  "fst (SendMessage fails req msgID now s) \<noteq> Return (Inl (Status NotFound m))"
proof -
  have "\<And>e s0. SendMessage fails req msgID now s = (Return (Inl e), s0) \<Longrightarrow> e \<noteq> Status NotFound m"
    unfolding SendMessage_def
    by (auto simp: Let_def split: if_splits sum.splits prod.splits outcome.splits)
  then show ?thesis by (metis prod.collapse)
qed


text \<open>
  C5. SendMessage answers a request with an empty user_id, room_id or content with
  InvalidArgument and leaves the server as it was. When the three fields are there and the
  store answers that the sender is not in the room's member set, SendMessage and
  StreamMessages answer PermissionDenied and leave the server as it was: nothing is stored
  or published, no channel is made or registered. Neither handler ever answers NotFound.
\<close>

theorem refused_before_any_effect:
  "(user_id req = [] \<or> room_id req = [] \<or> content req = [] \<longrightarrow>
      (\<exists>m. SendMessage fails req msgID now s = (Return (Inl (Status InvalidArgument m)), s))) \<and>
   (user_id req \<noteq> [] \<and> room_id req \<noteq> [] \<and> content req \<noteq> [] \<and>
    query fails 0 (SIsMember (''room:'' @ room_id req @ '':users'') (user_id req)) (rdb s) = Inr False \<longrightarrow>
      SendMessage fails req msgID now s =
        (Return (Inl (Status PermissionDenied ''user is not in the room'')), s)) \<and>
   (user_id sreq \<noteq> [] \<and> room_id sreq \<noteq> [] \<and>
    query fails 0 (SIsMember (''room:'' @ room_id sreq @ '':users'') (user_id sreq)) (rdb s) = Inr False \<longrightarrow>
      StreamMessages fails sreq now ok evs s =
        (Refused (Status PermissionDenied ''user is not in the room''), s)) \<and>
   (\<forall>m. fst (SendMessage fails req msgID now s) \<noteq> Return (Inl (Status NotFound m))) \<and>
   (\<forall>m st. fst (StreamMessages fails sreq now ok evs s) \<noteq> Refused (Status NotFound m) \<and>
           fst (StreamMessages fails sreq now ok evs s) \<noteq> Ended (Some (Status NotFound m)) st)"
proof (intro conjI impI allI)
  assume "user_id req = [] \<or> room_id req = [] \<or> content req = []"
  then show "\<exists>m. SendMessage fails req msgID now s = (Return (Inl (Status InvalidArgument m)), s)"
    by (auto simp: SendMessage_def)
next
  assume "user_id req \<noteq> [] \<and> room_id req \<noteq> [] \<and> content req \<noteq> [] \<and>
    query fails 0 (SIsMember (''room:'' @ room_id req @ '':users'') (user_id req)) (rdb s) = Inr False"
  then show "SendMessage fails req msgID now s =
        (Return (Inl (Status PermissionDenied ''user is not in the room'')), s)"
    by (simp add: SendMessage_def)
next
  assume "user_id sreq \<noteq> [] \<and> room_id sreq \<noteq> [] \<and>
    query fails 0 (SIsMember (''room:'' @ room_id sreq @ '':users'') (user_id sreq)) (rdb s) = Inr False"
  then show "StreamMessages fails sreq now ok evs s =
        (Refused (Status PermissionDenied ''user is not in the room''), s)"
    by (simp add: StreamMessages_def open_stream_def)
next
  fix m show "fst (SendMessage fails req msgID now s) \<noteq> Return (Inl (Status NotFound m))"
    by (rule SendMessage_never_NotFound)
next
  fix m st
  show "fst (StreamMessages fails sreq now ok evs s) \<noteq> Refused (Status NotFound m)"
    using StreamMessages_never_NotFound by blast
  show "fst (StreamMessages fails sreq now ok evs s) \<noteq> Ended (Some (Status NotFound m)) st"
    using StreamMessages_never_NotFound by blast
qed

theorem refused_before_any_effect_witness:
  "SendMessage nofail (ann_hello\<lparr>content := []\<rparr>) ''id-1'' noon fresh_server =
     (Return (Inl (Status InvalidArgument ''content is required'')), fresh_server) \<and>
   SendMessage nofail ann_hello ''id-1'' noon fresh_server =
     (Return (Inl (Status PermissionDenied ''user is not in the room'')), fresh_server) \<and>
   StreamMessages nofail ann_lobby noon True [CtxDone] fresh_server =
     (Refused (Status PermissionDenied ''user is not in the room''), fresh_server)"
proof -
  have q: "query nofail 0 (SIsMember (''room:'' @ ''lobby'' @ '':users'') ''ann'') (rdb fresh_server) = Inr False"
    by (simp add: query_def nofail_def SIsMember_def fresh_server_def NewChatCloudServer_def empty_store_def)
  have a: "\<exists>m. SendMessage nofail (ann_hello\<lparr>content := []\<rparr>) ''id-1'' noon fresh_server =
     (Return (Inl (Status InvalidArgument m)), fresh_server)"
    using refused_before_any_effect[where req="ann_hello\<lparr>content := []\<rparr>" and fails=nofail
        and msgID="''id-1''" and now=noon and s=fresh_server]
    by simp
  have b: "SendMessage nofail ann_hello ''id-1'' noon fresh_server =
     (Return (Inl (Status PermissionDenied ''user is not in the room'')), fresh_server)"
    using refused_before_any_effect[where req=ann_hello and fails=nofail and msgID="''id-1''"
        and now=noon and s=fresh_server] q
    by (simp add: ann_hello_def)
  have c: "StreamMessages nofail ann_lobby noon True [CtxDone] fresh_server =
     (Refused (Status PermissionDenied ''user is not in the room''), fresh_server)"
    using refused_before_any_effect[where fails=nofail and now=noon and s=fresh_server
        and sreq=ann_lobby and ok=True and evs="[CtxDone]"] q
    by (simp add: ann_lobby_def)
  from a have "SendMessage nofail (ann_hello\<lparr>content := []\<rparr>) ''id-1'' noon fresh_server =
     (Return (Inl (Status InvalidArgument ''content is required'')), fresh_server)"
    by (simp add: SendMessage_def ann_hello_def)
  with b c show ?thesis by simp
qed

subsection \<open>LeaveRoom twice\<close>

lemma SRem_settles:
  "SRem k m r = (Inr (), r1) \<Longrightarrow>
   keys r1 k = None \<or> (\<exists>S. keys r1 k = Some (RSet S) \<and> m \<notin> S \<and> S \<noteq> {})"
  by (auto simp: SRem_def split: option.splits rvalue.splits if_splits)

lemma SRem_elsewhere:
  "SRem k2 m2 r1 = (Inr (), r2) \<Longrightarrow> k1 \<noteq> k2 \<Longrightarrow> keys r2 k1 = keys r1 k1"
  by (auto simp: SRem_def split: option.splits rvalue.splits if_splits)

lemma SRem_settled:
  "keys r k = None \<or> (\<exists>S. keys r k = Some (RSet S) \<and> m \<notin> S \<and> S \<noteq> {}) \<Longrightarrow>
   SRem k m r = (Inr (), r)"
proof (erule disjE)
  assume "keys r k = None"
  then show ?thesis by (simp add: SRem_def)
next
  assume "\<exists>S. keys r k = Some (RSet S) \<and> m \<notin> S \<and> S \<noteq> {}"
  then obtain S where S: "keys r k = Some (RSet S)" "m \<notin> S" "S \<noteq> {}" by blast
  have "S - {m} = S" using S(2) by auto
  then show ?thesis using S by (simp add: SRem_def fun_upd_idem)
qed

lemma remove_stream_idem:
  "remove_stream room user s = Some s' \<Longrightarrow> remove_stream room user s' = Some s'"
  by (auto simp: remove_stream_def Let_def close_chan_def update_conv' delete_conv' map_of_delete_Nil
      split: option.splits if_splits)

lemma remove_stream_rdb:
  "remove_stream room user (s\<lparr>rdb := r\<rparr>) = Some s' \<Longrightarrow> rdb s' = r"
  by (auto simp: remove_stream_def Let_def close_chan_def split: option.splits if_splits)

lemma LeaveRoom_again:
  assumes first: "LeaveRoom fails req s = (Return (Inr resp), s1)"
    and up: "\<not> fails' 0" "\<not> fails' 1"
  shows "LeaveRoom fails' req s1 = (Return (Inr \<lparr>Success = True\<rparr>), s1)"
proof -
  have ne: "user_id req \<noteq> []" "room_id req \<noteq> []"
    using first by (auto simp: LeaveRoom_def split: if_splits)
  let ?k1 = "''room:'' @ room_id req @ '':users''" and ?k2 = "''user:'' @ user_id req @ '':rooms''"
  obtain x1 r1 where c1: "cmd fails 0 (SRem ?k1 (user_id req)) (rdb s) = (x1, r1)" by (meson surj_pair)
  obtain x2 r2 where c2: "cmd fails 1 (SRem ?k2 (room_id req)) r1 = (x2, r2)" by (meson surj_pair)
  have x1: "x1 = Inr ()" using first ne c1 by (cases x1) (auto simp: LeaveRoom_def)
  have x2: "x2 = Inr ()" using first ne c1 c2 x1 by (cases x2) (auto simp: LeaveRoom_def)
  have rs: "remove_stream (room_id req) (user_id req) (s\<lparr>rdb := r2\<rparr>) = Some s1"
    using first ne c1 c2 x1 x2 by (auto simp: LeaveRoom_def split: option.splits)
  have s1: "SRem ?k1 (user_id req) (rdb s) = (Inr (), r1)"
    using c1 x1 by (auto simp: cmd_def split: if_splits)
  have s2: "SRem ?k2 (room_id req) r1 = (Inr (), r2)"
    using c2 x2 by (auto simp: cmd_def split: if_splits)
  have rdb1: "rdb s1 = r2" using remove_stream_rdb[OF rs] .
  have "keys r2 ?k1 = keys r1 ?k1" by (rule SRem_elsewhere[OF s2]) simp
  then have a: "SRem ?k1 (user_id req) r2 = (Inr (), r2)"
    using SRem_settles[OF s1] by (intro SRem_settled) simp
  have b: "SRem ?k2 (room_id req) r2 = (Inr (), r2)"
    by (rule SRem_settled[OF SRem_settles[OF s2]])
  have c: "remove_stream (room_id req) (user_id req) (s1\<lparr>rdb := r2\<rparr>) = Some s1"
  proof -
    have "s1\<lparr>rdb := rdb s1\<rparr> = s1" by simp
    then show ?thesis using remove_stream_idem[OF rs] rdb1 by metis
  qed
  have "cmd fails' 0 (SRem ?k1 (user_id req)) (rdb s1) = (Inr (), r2)"
    using up a rdb1 by (simp add: cmd_def)
  moreover have "cmd fails' 1 (SRem ?k2 (room_id req)) r2 = (Inr (), r2)"
    using up b by (simp add: cmd_def)
  ultimately show ?thesis
    using ne c unfolding LeaveRoom_def by simp
qed

lemma LeaveRoom_no_panic:
  assumes "\<And>c. lookup (roomStreams s) (room_id req) (user_id req) = Some c \<Longrightarrow> \<not> closed (heap s c)"
  shows "fst (LeaveRoom fails req s) \<noteq> Panic x"
proof -
  have some: "\<exists>s'. remove_stream (room_id req) (user_id req) (s\<lparr>rdb := r2\<rparr>) = Some s'" for r2
    using assms by (cases "remove_stream (room_id req) (user_id req) (s\<lparr>rdb := r2\<rparr>)")
      (auto simp: remove_stream_None)
  consider (err) e s0 where "LeaveRoom fails req s = (Return (Inl e), s0)"
    | (go) r2 where "LeaveRoom fails req s =
      (case remove_stream (room_id req) (user_id req) (s\<lparr>rdb := r2\<rparr>) of
         None \<Rightarrow> (Panic ''close of closed channel'', s\<lparr>rdb := r2\<rparr>)
       | Some s' \<Rightarrow> (Return (Inr \<lparr>Success = True\<rparr>), s'))"
    using LeaveRoom_shape[of fails req s] by blast
  then show ?thesis
  proof cases
    case err
    then show ?thesis by simp
  next
    case go
    obtain s' where "remove_stream (room_id req) (user_id req) (s\<lparr>rdb := r2\<rparr>) = Some s'"
      using some by blast
    then show ?thesis using go by simp
  qed
qed

text \<open>
  C8. If LeaveRoom has succeeded for a user and a room, the same request succeeds again
  whenever its two store commands get through, and the second call changes nothing at all.
  No call of LeaveRoom panics in a state the server can reach, nor (reachable or not) when
  no channel is registered for the pair, as on a freshly started server.
\<close>

theorem LeaveRoom_twice:
  "(LeaveRoom fails req s = (Return (Inr resp), s') \<and> \<not> fails' 0 \<and> \<not> fails' 1 \<longrightarrow>
      LeaveRoom fails' req s' = (Return (Inr \<lparr>Success = True\<rparr>), s')) \<and>
   (LeaveRoom fails req s = (Return (Inr resp), s') \<longrightarrow> (\<forall>x. fst (LeaveRoom fails' req s') \<noteq> Panic x)) \<and>
   (lookup (roomStreams s) (room_id req) (user_id req) = None \<longrightarrow>
      (\<forall>x. fst (LeaveRoom fails req s) \<noteq> Panic x)) \<and>
   (\<forall>x. fst (LeaveRoom fails req (server (run parse cs (boot r)))) \<noteq> Panic x)"
proof (intro conjI impI allI)
  assume "LeaveRoom fails req s = (Return (Inr resp), s') \<and> \<not> fails' 0 \<and> \<not> fails' 1"
  then show "LeaveRoom fails' req s' = (Return (Inr \<lparr>Success = True\<rparr>), s')"
    using LeaveRoom_again by blast
next
  fix x assume first: "LeaveRoom fails req s = (Return (Inr resp), s')"
  have ne: "user_id req \<noteq> []" "room_id req \<noteq> []"
    using first by (auto simp: LeaveRoom_def split: if_splits)
  obtain r2 where "remove_stream (room_id req) (user_id req) (s\<lparr>rdb := r2\<rparr>) = Some s'"
    using first LeaveRoom_shape[of fails req s] by (auto split: option.splits)
  then have "lookup (roomStreams s') (room_id req) (user_id req) = None"
    by (simp add: lookup_remove_stream)
  then show "fst (LeaveRoom fails' req s') \<noteq> Panic x"
    by (intro LeaveRoom_no_panic) simp
next
  fix x assume "lookup (roomStreams s) (room_id req) (user_id req) = None"
  then show "fst (LeaveRoom fails req s) \<noteq> Panic x"
    by (intro LeaveRoom_no_panic) simp
next
  fix x
  have ok: "registry_ok (run parse cs (boot r))"
    by (rule registry_ok_run[OF registry_ok_boot])
  show "fst (LeaveRoom fails req (server (run parse cs (boot r)))) \<noteq> Panic x"
    by (rule LeaveRoom_no_panic) (use registry_okD(2)[OF ok] in blast)
qed

theorem LeaveRoom_twice_witness:
  "(\<exists>resp s1. LeaveRoom nofail ann_lobby (server ann_streaming) = (Return (Inr resp), s1) \<and>
      lookup (roomStreams (server ann_streaming)) ''lobby'' ''ann'' = Some 0 \<and>
      closed (heap s1 0) \<and>
      LeaveRoom nofail ann_lobby s1 = (Return (Inr \<lparr>Success = True\<rparr>), s1)) \<and>
   lookup (roomStreams fresh_server) ''lobby'' ''ann'' = None \<and>
   LeaveRoom nofail ann_lobby fresh_server = (Return (Inr \<lparr>Success = True\<rparr>), fresh_server)"
proof -
  obtain resp s1 where first: "LeaveRoom nofail ann_lobby (server ann_streaming) = (Return (Inr resp), s1)"
    and cl: "closed (heap s1 0)"
    by (simp add: eval_defs)
  have reg: "lookup (roomStreams (server ann_streaming)) ''lobby'' ''ann'' = Some 0"
    by (simp add: eval_defs lookup_def)
  have again: "LeaveRoom nofail ann_lobby s1 = (Return (Inr \<lparr>Success = True\<rparr>), s1)"
    using LeaveRoom_twice[where fails=nofail and fails'=nofail and req=ann_lobby
        and s="server ann_streaming" and resp=resp and s'=s1] first
    by (simp add: nofail_def)
  have fresh: "lookup (roomStreams fresh_server) ''lobby'' ''ann'' = None"
    by (simp add: eval_defs lookup_def)
  have "LeaveRoom nofail ann_lobby fresh_server = (Return (Inr \<lparr>Success = True\<rparr>), fresh_server)"
    by (simp add: eval_defs)
  with first cl reg again fresh show ?thesis by blast
qed

subsection \<open>JoinRoom\<close>

lemma SAdd_settles:
  "SAdd k m r = (Inr (), r1) \<Longrightarrow> \<exists>S. keys r1 k = Some (RSet S) \<and> m \<in> S"
  by (auto simp: SAdd_def split: option.splits rvalue.splits)

lemma SAdd_elsewhere:
  "SAdd k2 m2 r1 = (x, r2) \<Longrightarrow> k1 \<noteq> k2 \<Longrightarrow> keys r2 k1 = keys r1 k1"
  by (auto simp: SAdd_def split: option.splits rvalue.splits)

lemma SAdd_settled:
  "keys r k = Some (RSet S) \<Longrightarrow> m \<in> S \<Longrightarrow> SAdd k m r = (Inr (), r)"
  by (simp add: SAdd_def insert_absorb fun_upd_idem)

lemma SAdd_holds_set:
  "holds_set r k \<Longrightarrow> \<exists>r1. SAdd k m r = (Inr (), r1)"
  by (auto simp: SAdd_def holds_set_def split: option.splits rvalue.splits)

lemma LRange_holds_list:
  "holds_list r k \<Longrightarrow> \<exists>ids. LRange k a b r = Inr ids"
  by (auto simp: LRange_def holds_list_def split: option.splits rvalue.splits)

lemma recent_loop_rdb:
  "rdb (snd (recent_loop parse fails i ids acc s)) = rdb s"
  by (induction ids arbitrary: i acc s) (auto simp: logf_def split: sum.splits option.splits)


lemma JoinRoom_success:
  assumes "JoinRoom parse fails req s = (Inr resp, s')"
  shows "\<exists>r1 r2 ids.
      user_id req \<noteq> [] \<and> room_id req \<noteq> [] \<and> \<not> fails 0 \<and> \<not> fails 1 \<and> \<not> fails 2 \<and>
      SAdd (''room:'' @ room_id req @ '':users'') (user_id req) (rdb s) = (Inr (), r1) \<and>
      SAdd (''user:'' @ user_id req @ '':rooms'') (room_id req) r1 = (Inr (), r2) \<and>
      LRange (''room:'' @ room_id req @ '':messages'') 0 49 r2 = Inr ids \<and>
      recent_loop parse fails 3 ids [] (s\<lparr>rdb := r2\<rparr>) = (RecentMessages resp, s') \<and>
      Success resp"
proof -
  have ne: "user_id req \<noteq> []" "room_id req \<noteq> []"
    using assms by (auto simp: JoinRoom_def split: if_splits)
  let ?k1 = "''room:'' @ room_id req @ '':users''" and ?k2 = "''user:'' @ user_id req @ '':rooms''"
  let ?k3 = "''room:'' @ room_id req @ '':messages''"
  obtain x1 r1 where c1: "cmd fails 0 (SAdd ?k1 (user_id req)) (rdb s) = (x1, r1)" by (meson surj_pair)
  have x1: "x1 = Inr ()" using assms ne c1 by (cases x1) (auto simp: JoinRoom_def)
  obtain x2 r2 where c2: "cmd fails 1 (SAdd ?k2 (room_id req)) r1 = (x2, r2)" by (meson surj_pair)
  have x2: "x2 = Inr ()" using assms ne c1 c2 x1 by (cases x2) (auto simp: JoinRoom_def)
  obtain ids where c3: "query fails 2 (LRange ?k3 0 49) r2 = Inr ids"
    using assms ne c1 c2 x1 x2 by (cases "query fails 2 (LRange ?k3 0 49) r2") (auto simp: JoinRoom_def)
  obtain ms s'' where c4: "recent_loop parse fails 3 ids [] (s\<lparr>rdb := r2\<rparr>) = (ms, s'')" by (meson surj_pair)
  have res: "resp = \<lparr>Success = True, RecentMessages = ms\<rparr>" "s' = s''"
    using assms ne c1 c2 x1 x2 c3 c4 by (auto simp: JoinRoom_def)
  have "\<not> fails 0" "SAdd ?k1 (user_id req) (rdb s) = (Inr (), r1)"
    using c1 x1 by (auto simp: cmd_def split: if_splits)
  moreover have "\<not> fails 1" "SAdd ?k2 (room_id req) r1 = (Inr (), r2)"
    using c2 x2 by (auto simp: cmd_def split: if_splits)
  moreover have "\<not> fails 2" "LRange ?k3 0 49 r2 = Inr ids"
    using c3 by (auto simp: query_def split: if_splits)
  ultimately show ?thesis using ne c4 res by auto
qed

lemma JoinRoom_accepts:
  assumes ne: "user_id req \<noteq> []" "room_id req \<noteq> []"
    and up: "\<not> fails 0" "\<not> fails 1" "\<not> fails 2"
    and a1: "SAdd (''room:'' @ room_id req @ '':users'') (user_id req) (rdb s) = (Inr (), r1)"
    and a2: "SAdd (''user:'' @ user_id req @ '':rooms'') (room_id req) r1 = (Inr (), r2)"
    and a3: "LRange (''room:'' @ room_id req @ '':messages'') 0 49 r2 = Inr ids"
  shows "JoinRoom parse fails req s =
     (Inr \<lparr>Success = True, RecentMessages = fst (recent_loop parse fails 3 ids [] (s\<lparr>rdb := r2\<rparr>))\<rparr>,
      snd (recent_loop parse fails 3 ids [] (s\<lparr>rdb := r2\<rparr>)))"
  using assms unfolding JoinRoom_def by (simp add: cmd_def query_def split: prod.splits)

lemma JoinRoom_again:
  assumes first: "JoinRoom parse fails req s = (Inr resp, s1)"
    and up: "\<not> fails' 0" "\<not> fails' 1" "\<not> fails' 2"
  shows "\<exists>resp' s2. JoinRoom parse fails' req s1 = (Inr resp', s2) \<and> Success resp' \<and> rdb s2 = rdb s1"
proof -
  let ?k1 = "''room:'' @ room_id req @ '':users''" and ?k2 = "''user:'' @ user_id req @ '':rooms''"
  let ?k3 = "''room:'' @ room_id req @ '':messages''"
  obtain r1 r2 ids where ne: "user_id req \<noteq> []" "room_id req \<noteq> []"
    and a1: "SAdd ?k1 (user_id req) (rdb s) = (Inr (), r1)"
    and a2: "SAdd ?k2 (room_id req) r1 = (Inr (), r2)"
    and a3: "LRange ?k3 0 49 r2 = Inr ids"
    and a4: "recent_loop parse fails 3 ids [] (s\<lparr>rdb := r2\<rparr>) = (RecentMessages resp, s1)"
    using JoinRoom_success[OF first] by blast
  have rdb1: "rdb s1 = r2" using recent_loop_rdb[of parse fails 3 ids "[]" "s\<lparr>rdb := r2\<rparr>"] a4 by simp
  obtain S1 where S1: "keys r1 ?k1 = Some (RSet S1)" "user_id req \<in> S1" using SAdd_settles[OF a1] by blast
  have "keys r2 ?k1 = keys r1 ?k1" by (rule SAdd_elsewhere[OF a2]) simp
  then have b1: "SAdd ?k1 (user_id req) r2 = (Inr (), r2)" using S1 by (intro SAdd_settled[of _ _ S1]) simp_all
  obtain S2 where S2: "keys r2 ?k2 = Some (RSet S2)" "room_id req \<in> S2" using SAdd_settles[OF a2] by blast
  have b2: "SAdd ?k2 (room_id req) r2 = (Inr (), r2)" using S2 by (rule SAdd_settled)
  have "s1\<lparr>rdb := rdb s1\<rparr> = s1" by simp
  then have e: "s1\<lparr>rdb := r2\<rparr> = s1" using rdb1 by metis
  have "JoinRoom parse fails' req s1 =
     (Inr \<lparr>Success = True, RecentMessages = fst (recent_loop parse fails' 3 ids [] (s1\<lparr>rdb := r2\<rparr>))\<rparr>,
      snd (recent_loop parse fails' 3 ids [] (s1\<lparr>rdb := r2\<rparr>)))"
    by (rule JoinRoom_accepts[OF ne up _ b2 a3]) (use b1 rdb1 in simp)
  moreover have "rdb (snd (recent_loop parse fails' 3 ids [] (s1\<lparr>rdb := r2\<rparr>))) = rdb s1"
    using recent_loop_rdb[of parse fails' 3 ids "[]" "s1\<lparr>rdb := r2\<rparr>"] rdb1 by simp
  ultimately show ?thesis by simp
qed

lemma JoinRoom_never_PermissionDenied:
  "fst (JoinRoom parse fails req s) \<noteq> Inl (Status PermissionDenied m)"
  unfolding JoinRoom_def by (auto split: prod.splits sum.splits)

lemma JoinRoom_anyone:
  assumes ne: "user_id req \<noteq> []" "room_id req \<noteq> []"
    and up: "\<not> fails 0" "\<not> fails 1" "\<not> fails 2"
    and t1: "holds_set (rdb s) (''room:'' @ room_id req @ '':users'')"
    and t2: "holds_set (rdb s) (''user:'' @ user_id req @ '':rooms'')"
    and t3: "holds_list (rdb s) (''room:'' @ room_id req @ '':messages'')"
  shows "\<exists>resp s'. JoinRoom parse fails req s = (Inr resp, s') \<and> Success resp \<and>
           user_id req \<in> room_users (rdb s') (room_id req) \<and>
           room_id req \<in> user_rooms (rdb s') (user_id req)"
proof -
  let ?k1 = "''room:'' @ room_id req @ '':users''" and ?k2 = "''user:'' @ user_id req @ '':rooms''"
  let ?k3 = "''room:'' @ room_id req @ '':messages''"
  obtain r1 where a1: "SAdd ?k1 (user_id req) (rdb s) = (Inr (), r1)" using SAdd_holds_set[OF t1] by blast
  have "keys r1 ?k2 = keys (rdb s) ?k2" by (rule SAdd_elsewhere[OF a1]) simp
  then have "holds_set r1 ?k2" using t2 by (simp add: holds_set_def)
  then obtain r2 where a2: "SAdd ?k2 (room_id req) r1 = (Inr (), r2)" using SAdd_holds_set by blast
  have "keys r1 ?k3 = keys (rdb s) ?k3" by (rule SAdd_elsewhere[OF a1]) simp
  moreover have "keys r2 ?k3 = keys r1 ?k3" by (rule SAdd_elsewhere[OF a2]) simp
  ultimately have "holds_list r2 ?k3" using t3 by (simp add: holds_list_def)
  then obtain ids where a3: "LRange ?k3 0 49 r2 = Inr ids" using LRange_holds_list by blast
  note j = JoinRoom_accepts[OF ne up a1 a2 a3, of parse]
  have rdb': "rdb (snd (recent_loop parse fails 3 ids [] (s\<lparr>rdb := r2\<rparr>))) = r2"
    using recent_loop_rdb[of parse fails 3 ids "[]" "s\<lparr>rdb := r2\<rparr>"] by simp
  obtain S1 where S1: "keys r1 ?k1 = Some (RSet S1)" "user_id req \<in> S1" using SAdd_settles[OF a1] by blast
  have "keys r2 ?k1 = keys r1 ?k1" by (rule SAdd_elsewhere[OF a2]) simp
  then have m1: "user_id req \<in> room_users r2 (room_id req)" using S1 by (simp add: room_users_def)
  obtain S2 where S2: "keys r2 ?k2 = Some (RSet S2)" "room_id req \<in> S2" using SAdd_settles[OF a2] by blast
  then have m2: "room_id req \<in> user_rooms r2 (user_id req)" by (simp add: user_rooms_def)
  show ?thesis using j rdb' m1 m2 by simp
qed

text \<open>
  C10. JoinRoom asks the store nothing about membership and never answers
  PermissionDenied. With non-empty ids, a connection that delivers its first three
  commands and the three keys free for their kind, the call succeeds and the user is in
  the room's member set and the room in the user's room set, whoever the user is. After a
  successful JoinRoom the same request succeeds again (if its commands get through) and
  leaves the whole store, both sets included, as the first call left it.
\<close>

theorem JoinRoom_open_and_repeatable:
  "(\<forall>m. fst (JoinRoom parse fails req s) \<noteq> Inl (Status PermissionDenied m)) \<and>
   (user_id req \<noteq> [] \<and> room_id req \<noteq> [] \<and> \<not> fails 0 \<and> \<not> fails 1 \<and> \<not> fails 2 \<and>
    holds_set (rdb s) (''room:'' @ room_id req @ '':users'') \<and>
    holds_set (rdb s) (''user:'' @ user_id req @ '':rooms'') \<and>
    holds_list (rdb s) (''room:'' @ room_id req @ '':messages'') \<longrightarrow>
      (\<exists>resp s'. JoinRoom parse fails req s = (Inr resp, s') \<and> Success resp \<and>
           user_id req \<in> room_users (rdb s') (room_id req) \<and>
           room_id req \<in> user_rooms (rdb s') (user_id req))) \<and>
   (JoinRoom parse fails req s = (Inr resp, s') \<and> \<not> fails' 0 \<and> \<not> fails' 1 \<and> \<not> fails' 2 \<longrightarrow>
      (\<exists>resp' s''. JoinRoom parse fails' req s' = (Inr resp', s'') \<and> Success resp' \<and>
           rdb s'' = rdb s' \<and>
           room_users (rdb s'') (room_id req) = room_users (rdb s') (room_id req) \<and>
           user_rooms (rdb s'') (user_id req) = user_rooms (rdb s') (user_id req)))"
proof (intro conjI impI allI)
  fix m show "fst (JoinRoom parse fails req s) \<noteq> Inl (Status PermissionDenied m)"
    by (rule JoinRoom_never_PermissionDenied)
next
  assume "user_id req \<noteq> [] \<and> room_id req \<noteq> [] \<and> \<not> fails 0 \<and> \<not> fails 1 \<and> \<not> fails 2 \<and>
    holds_set (rdb s) (''room:'' @ room_id req @ '':users'') \<and>
    holds_set (rdb s) (''user:'' @ user_id req @ '':rooms'') \<and>
    holds_list (rdb s) (''room:'' @ room_id req @ '':messages'')"
  then show "\<exists>resp s'. JoinRoom parse fails req s = (Inr resp, s') \<and> Success resp \<and>
           user_id req \<in> room_users (rdb s') (room_id req) \<and>
           room_id req \<in> user_rooms (rdb s') (user_id req)"
    using JoinRoom_anyone by blast
next
  assume "JoinRoom parse fails req s = (Inr resp, s') \<and> \<not> fails' 0 \<and> \<not> fails' 1 \<and> \<not> fails' 2"
  then obtain resp' s'' where "JoinRoom parse fails' req s' = (Inr resp', s'')" "Success resp'"
      "rdb s'' = rdb s'"
    using JoinRoom_again by blast
  then show "\<exists>resp' s''. JoinRoom parse fails' req s' = (Inr resp', s'') \<and> Success resp' \<and>
           rdb s'' = rdb s' \<and>
           room_users (rdb s'') (room_id req) = room_users (rdb s') (room_id req) \<and>
           user_rooms (rdb s'') (user_id req) = user_rooms (rdb s') (user_id req)"
    by simp
qed

theorem JoinRoom_open_and_repeatable_witness:
  "\<exists>resp s' resp' s''.
     JoinRoom parse_example nofail ann_lobby fresh_server = (Inr resp, s') \<and>
     room_users (rdb s') ''lobby'' = {''ann''} \<and> user_rooms (rdb s') ''ann'' = {''lobby''} \<and>
     JoinRoom parse_example nofail ann_lobby s' = (Inr resp', s'') \<and>
     room_users (rdb s'') ''lobby'' = {''ann''} \<and> user_rooms (rdb s'') ''ann'' = {''lobby''}"
proof -
  have h: "holds_set (rdb fresh_server) (''room:'' @ room_id ann_lobby @ '':users'')"
      "holds_set (rdb fresh_server) (''user:'' @ user_id ann_lobby @ '':rooms'')"
      "holds_list (rdb fresh_server) (''room:'' @ room_id ann_lobby @ '':messages'')"
    by (simp_all add: holds_set_def holds_list_def eval_defs)
  have "\<exists>resp s'. JoinRoom parse_example nofail ann_lobby fresh_server = (Inr resp, s') \<and> Success resp \<and>
           user_id ann_lobby \<in> room_users (rdb s') (room_id ann_lobby) \<and>
           room_id ann_lobby \<in> user_rooms (rdb s') (user_id ann_lobby)"
    by (rule mp[OF conjunct1[OF conjunct2[OF JoinRoom_open_and_repeatable]]])
       (use h in \<open>simp add: nofail_def ann_lobby_def\<close>)
  then obtain resp s' where first: "JoinRoom parse_example nofail ann_lobby fresh_server = (Inr resp, s')"
    by blast
  have sets: "room_users (rdb s') ''lobby'' = {''ann''}" "user_rooms (rdb s') ''ann'' = {''lobby''}"
    using first by (auto simp: eval_defs room_users_def user_rooms_def)
  have "\<exists>resp' s''. JoinRoom parse_example nofail ann_lobby s' = (Inr resp', s'') \<and> Success resp' \<and>
           rdb s'' = rdb s' \<and>
           room_users (rdb s'') (room_id ann_lobby) = room_users (rdb s') (room_id ann_lobby) \<and>
           user_rooms (rdb s'') (user_id ann_lobby) = user_rooms (rdb s') (user_id ann_lobby)"
    by (rule mp[OF conjunct2[OF conjunct2[OF JoinRoom_open_and_repeatable]]])
       (use first in \<open>simp add: nofail_def\<close>)
  then obtain resp' s'' where again: "JoinRoom parse_example nofail ann_lobby s' = (Inr resp', s'')"
      and same: "room_users (rdb s'') (room_id ann_lobby) = room_users (rdb s') (room_id ann_lobby)"
        "user_rooms (rdb s'') (user_id ann_lobby) = user_rooms (rdb s') (user_id ann_lobby)"
    by blast
  show ?thesis using first sets again same by (auto simp: ann_lobby_def)
qed

subsection \<open>The room's history\<close>

lemma SendMessage_success:
  assumes first: "SendMessage fails req msgID now s = (Return (Inr resp), s')"
  shows "\<exists>r1 r2 t r3 p r4 s4.
      user_id req \<noteq> [] \<and> room_id req \<noteq> [] \<and> content req \<noteq> [] \<and>
      query fails 0 (SIsMember (''room:'' @ room_id req @ '':users'') (user_id req)) (rdb s) = Inr True \<and>
      cmd fails 1
           (HSet (''message:'' @ msgID)
              [(''user_id'', user_id req), (''room_id'', room_id req),
               (''content'', content req), (''timestamp'', RFC3339 now)]) (rdb s) = (Inr (), r1) \<and>
      cmd fails 2 (LPush (''room:'' @ room_id req @ '':messages'') msgID) r1 = (Inr (), r2) \<and>
      cmd fails 3 (LTrim (''room:'' @ room_id req @ '':messages'') 0 999) r2 = (t, r3) \<and>
      cmd fails 4 (Publish (''room:'' @ room_id req) msgID) r3 = (p, r4) \<and>
      roomStreams s4 = roomStreams s \<and> heap s4 = heap s \<and> allocated s4 = allocated s \<and> rdb s4 = r4 \<and>
      broadcastMessage (SentMessage resp) s4 = (Return (), s') \<and>
      SentMessage resp = \<lparr>Id = msgID, UserId = user_id req, RoomId = room_id req,
                Content = content req, Timestamp = unix_milli (UnixNano now)\<rparr> \<and>
      Success resp"
proof -
  have nonempty: "user_id req \<noteq> []" "room_id req \<noteq> []" "content req \<noteq> []"
    using first by (auto simp: SendMessage_def split: if_splits)
  let ?q = "query fails 0 (SIsMember (''room:'' @ room_id req @ '':users'') (user_id req)) (rdb s)"
  have q: "?q = Inr True"
  proof (cases ?q)
    case (Inl e)
    then show ?thesis using first nonempty by (simp add: SendMessage_def)
  next
    case (Inr b)
    then show ?thesis using first nonempty by (cases b) (simp_all add: SendMessage_def)
  qed
  obtain x1 r1 where c1: "cmd fails 1
           (HSet (''message:'' @ msgID)
              [(''user_id'', user_id req), (''room_id'', room_id req),
               (''content'', content req), (''timestamp'', RFC3339 now)]) (rdb s) = (x1, r1)"
    by (meson surj_pair)
  have x1: "x1 = Inr ()" using first nonempty q c1 by (cases x1) (simp_all add: SendMessage_def)
  obtain x2 r2 where c2: "cmd fails 2 (LPush (''room:'' @ room_id req @ '':messages'') msgID) r1 = (x2, r2)"
    by (meson surj_pair)
  have x2: "x2 = Inr ()" using first nonempty q c1 x1 c2 by (cases x2) (simp_all add: SendMessage_def)
  obtain t r3 where c3: "cmd fails 3 (LTrim (''room:'' @ room_id req @ '':messages'') 0 999) r2 = (t, r3)"
    by (meson surj_pair)
  obtain p r4 where c4: "cmd fails 4 (Publish (''room:'' @ room_id req) msgID) r3 = (p, r4)"
    by (meson surj_pair)
  define msg where "msg = \<lparr>Id = msgID, UserId = user_id req, RoomId = room_id req,
                Content = content req, Timestamp = unix_milli (UnixNano now)\<rparr>"
  define s3 where "s3 = (case t of Inl e \<Rightarrow> logf ''Error trimming message list: %v'' s | Inr _ \<Rightarrow> s)"
  define s4 where "s4 = (case p of Inl e \<Rightarrow> logf ''Error publishing message: %v'' s3 | Inr _ \<Rightarrow> s3)"
  have eq: "SendMessage fails req msgID now s =
           (case broadcastMessage msg (s4\<lparr>rdb := r4\<rparr>) of
              (Panic x, s5) \<Rightarrow> (Panic x, s5)
            | (Return _, s5) \<Rightarrow> (Return (Inr \<lparr>Success = True, SentMessage = msg\<rparr>), s5))"
    by (rule SendMessage_accepted[OF _ _ _ _ _ _ c3 c4 msg_def s3_def s4_def])
       (use nonempty q c1 x1 c2 x2 in auto)
  have fr: "roomStreams (s4\<lparr>rdb := r4\<rparr>) = roomStreams s" "heap (s4\<lparr>rdb := r4\<rparr>) = heap s"
      "allocated (s4\<lparr>rdb := r4\<rparr>) = allocated s" "rdb (s4\<lparr>rdb := r4\<rparr>) = r4"
    by (auto simp: s4_def s3_def logf_def split: sum.splits)
  obtain y s5 where b: "broadcastMessage msg (s4\<lparr>rdb := r4\<rparr>) = (y, s5)" by (meson surj_pair)
  have y: "y = Return ()" "s5 = s'" "resp = \<lparr>Success = True, SentMessage = msg\<rparr>"
    using first eq b by (cases y; simp)+
  have "broadcastMessage (SentMessage resp) (s4\<lparr>rdb := r4\<rparr>) = (Return (), s')"
    using b y by simp
  moreover have "SentMessage resp = msg" "Success resp" using y by simp_all
  ultimately show ?thesis
    using nonempty q c1 x1 c2 x2 c3 c4 fr unfolding msg_def by blast
qed

lemma HSet_elsewhere:
  "HSet k fs r = (x, r') \<Longrightarrow> k' \<noteq> k \<Longrightarrow> keys r' k' = keys r k'"
  by (auto simp: HSet_def split: option.splits rvalue.splits)

lemma LPush_list:
  "LPush k v r = (Inr (), r') \<Longrightarrow>
   \<exists>xs. (keys r k = None \<and> xs = [] \<or> keys r k = Some (RList xs)) \<and> keys r' k = Some (RList (v # xs))"
  by (auto simp: LPush_def split: option.splits rvalue.splits)

lemma LTrim_list:
  "keys r k = Some (RList (v # xs)) \<Longrightarrow>
   \<exists>r'. LTrim k 0 999 r = (Inr (), r') \<and> keys r' k = Some (RList (take 1000 (v # xs)))"
  by (simp add: LTrim_def lrange_def)

lemma history_after_send:
  assumes first: "SendMessage fails req msgID now s = (Return (Inr resp), s')"
  shows "room_messages (rdb s') (room_id req) =
           (if fails 3 then msgID # room_messages (rdb s) (room_id req)
            else take 1000 (msgID # room_messages (rdb s) (room_id req)))"
proof -
  let ?k = "''room:'' @ room_id req @ '':messages''"
  obtain r1 r2 t r3 p r4 s4 where
      c1: "cmd fails 1
           (HSet (''message:'' @ msgID)
              [(''user_id'', user_id req), (''room_id'', room_id req),
               (''content'', content req), (''timestamp'', RFC3339 now)]) (rdb s) = (Inr (), r1)"
    and c2: "cmd fails 2 (LPush ?k msgID) r1 = (Inr (), r2)"
    and c3: "cmd fails 3 (LTrim ?k 0 999) r2 = (t, r3)"
    and c4: "cmd fails 4 (Publish (''room:'' @ room_id req) msgID) r3 = (p, r4)"
    and s4: "rdb s4 = r4" and b: "broadcastMessage (SentMessage resp) s4 = (Return (), s')"
    using SendMessage_success[OF first] by blast
  have k1: "keys r1 ?k = keys (rdb s) ?k"
    using c1 by (auto simp: cmd_def split: if_splits dest!: HSet_elsewhere[where k'="?k"])
  have "LPush ?k msgID r1 = (Inr (), r2)" using c2 by (auto simp: cmd_def split: if_splits)
  then obtain xs where xs: "keys r1 ?k = None \<and> xs = [] \<or> keys r1 ?k = Some (RList xs)"
      and k2: "keys r2 ?k = Some (RList (msgID # xs))"
    using LPush_list by blast
  have old: "room_messages (rdb s) (room_id req) = xs"
    using xs k1 by (auto simp: room_messages_def)
  have k3: "keys r3 ?k = Some (RList (if fails 3 then msgID # xs else take 1000 (msgID # xs)))"
  proof (cases "fails 3")
    case True
    then show ?thesis using c3 k2 by (simp add: cmd_def)
  next
    case False
    then show ?thesis using c3 k2 LTrim_list[OF k2] by (auto simp: cmd_def)
  qed
  have "keys r4 = keys r3" using c4 by (auto simp: cmd_def Publish_def split: if_splits)
  moreover have "rdb s' = r4" using broadcastMessage_frame[OF b] s4 by simp
  ultimately show ?thesis using k3 old by (simp add: room_messages_def)
qed

lemma unix_milli_examples:
  "unix_milli 1700000000000000000 = 1700000000000"
  "unix_milli 1700000001000000000 = 1700000001000"
  "unix_milli 1700000000123456789 = 1700000000123"
  "unix_milli 1700000001987654321 = 1700000001987"
  by (simp_all add: unix_milli_def int64_quot_def Millisecond_def)

text \<open>
  C7 as stated fails when the trim command does not get through: the handler logs the
  failure and still reports success. Here the room's list holds 1000 IDs, the trim fails,
  and the call returns success with 1001 IDs in the list.
\<close>

theorem trim_failure_counterexample:
  "fst (SendMessage trim_fails ann_hello ''new'' noon full_history) =
     Return (Inr \<lparr>Success = True,
                  SentMessage = \<lparr>Id = ''new'', UserId = ''ann'', RoomId = ''lobby'',
                                  Content = ''hello'', Timestamp = 1700000000123\<rparr>\<rparr>) \<and>
   length (room_messages (rdb full_history) ''lobby'') = 1000 \<and>
   room_messages (rdb (snd (SendMessage trim_fails ann_hello ''new'' noon full_history))) ''lobby'' =
     ''new'' # replicate 1000 ''old'' \<and>
   length (room_messages (rdb (snd (SendMessage trim_fails ann_hello ''new'' noon full_history))) ''lobby'') = 1001"
  by (simp add: SendMessage_def full_history_def trim_fails_def ann_hello_def noon_def query_def cmd_def
      SIsMember_def HSet_def LPush_def Publish_def broadcastMessage_def room_messages_def
      fresh_server_def NewChatCloudServer_def empty_store_def logf_def Let_def unix_milli_examples)

text \<open>
  C7, amended. A successful SendMessage puts the new message's ID at the head of the
  room's list; when the trim command reaches the store, the list is then cut to its first
  1000 entries, so it holds at most 1000 IDs, newest first, and the entries cut off are
  the oldest. When the trim command fails, the failure is only logged and the list keeps
  every entry, the new one included.
\<close>

theorem history_bounded_when_trimmed:
  "SendMessage fails req msgID now s = (Return (Inr resp), s') \<longrightarrow>
     Id (SentMessage resp) = msgID \<and>
     (\<not> fails 3 \<longrightarrow>
        room_messages (rdb s') (room_id req) = take 1000 (msgID # room_messages (rdb s) (room_id req)) \<and>
        length (room_messages (rdb s') (room_id req)) \<le> 1000) \<and>
     (fails 3 \<longrightarrow>
        room_messages (rdb s') (room_id req) = msgID # room_messages (rdb s) (room_id req))"
proof
  assume first: "SendMessage fails req msgID now s = (Return (Inr resp), s')"
  have "Id (SentMessage resp) = msgID" using SendMessage_success[OF first] by auto
  then show "Id (SentMessage resp) = msgID \<and>
     (\<not> fails 3 \<longrightarrow>
        room_messages (rdb s') (room_id req) = take 1000 (msgID # room_messages (rdb s) (room_id req)) \<and>
        length (room_messages (rdb s') (room_id req)) \<le> 1000) \<and>
     (fails 3 \<longrightarrow>
        room_messages (rdb s') (room_id req) = msgID # room_messages (rdb s) (room_id req))"
    using history_after_send[OF first] by simp
qed

theorem history_bounded_witness:
  "\<exists>resp s'. SendMessage nofail ann_hello ''new'' noon full_history = (Return (Inr resp), s') \<and>
      room_messages (rdb s') ''lobby'' = ''new'' # replicate 999 ''old'' \<and>
      length (room_messages (rdb s') ''lobby'') \<le> 1000"
proof -
  obtain resp s' where first: "SendMessage nofail ann_hello ''new'' noon full_history = (Return (Inr resp), s')"
    by (simp add: SendMessage_def full_history_def nofail_def ann_hello_def noon_def query_def cmd_def
      SIsMember_def HSet_def LPush_def LTrim_def lrange_def Publish_def broadcastMessage_def
      fresh_server_def NewChatCloudServer_def empty_store_def logf_def Let_def)
  have old: "room_messages (rdb full_history) ''lobby'' = replicate 1000 ''old''"
    by (simp add: full_history_def room_messages_def)
  have "room_messages (rdb s') ''lobby'' = take 1000 (''new'' # replicate 1000 ''old'')"
    using history_bounded_when_trimmed[where fails=nofail and req=ann_hello and msgID="''new''"
        and now=noon and s=full_history and resp=resp and s'=s'] first old
    by (simp add: nofail_def ann_hello_def)
  moreover have "take 1000 (''new'' # replicate 1000 ''old'') = ''new'' # replicate 999 ''old''"
    by (simp add: take_Cons')
  ultimately show ?thesis using first by simp
qed










subsection \<open>One broadcast\<close>

lemma distinct_values:
  "distinct (map fst m) \<Longrightarrow> (\<And>u u' c. (u, c) \<in> set m \<Longrightarrow> (u', c) \<in> set m \<Longrightarrow> u = u') \<Longrightarrow>
   distinct (map snd m)"
proof (induction m)
  case Nil
  then show ?case by simp
next
  case (Cons a m)
  obtain u c where a: "a = (u, c)" by (cases a)
  have "c \<notin> snd ` set m"
  proof
    assume "c \<in> snd ` set m"
    then obtain u' where in': "(u', c) \<in> set m" by force
    then have "u = u'" using Cons.prems(2)[of u c u'] a by simp
    then show False using Cons.prems(1) a in' by force
  qed
  moreover have "distinct (map snd m)"
    by (rule Cons.IH) (use Cons.prems in auto)
  ultimately show ?case using a by simp
qed

lemma subscribers_reachable:
  assumes ok: "registry_ok w"
  shows "distinct (map snd (subscribers (server w) room))"
    and "\<forall>(u, c) \<in> set (subscribers (server w) room). \<not> closed (heap (server w) c)"
proof -
  have d: "distinct (map fst (subscribers (server w) room))"
    using registry_ok_basic(2)[OF ok]
    by (auto simp: subscribers_def wf_registry_alt split: option.splits)
  show "distinct (map snd (subscribers (server w) room))"
  proof (rule distinct_values[OF d])
    fix u u' c assume "(u, c) \<in> set (subscribers (server w) room)" "(u', c) \<in> set (subscribers (server w) room)"
    then have "lookup (roomStreams (server w)) room u = Some c" "lookup (roomStreams (server w)) room u' = Some c"
      using subscribers_open[OF ok] by blast+
    then show "u = u'" using registry_okD(5)[OF ok] by metis
  qed
  show "\<forall>(u, c) \<in> set (subscribers (server w) room). \<not> closed (heap (server w) c)"
    using subscribers_open[OF ok] registry_okD(2)[OF ok] by blast
qed

lemma broadcast_loop_heap:
  assumes "distinct (map snd xs)" "\<And>u c. (u, c) \<in> set xs \<Longrightarrow> \<not> closed (heap s c)"
  shows "heap (snd (broadcast_loop msg xs s)) c =
     (if c \<in> snd ` set xs \<and> length (buf (heap s c)) < capacity
      then (heap s c)\<lparr>buf := buf (heap s c) @ [msg]\<rparr> else heap s c)"
  using assms
proof (induction xs arbitrary: s)
  case Nil
  then show ?case by simp
next
  case (Cons x xs)
  obtain u c0 where x: "x = (u, c0)" by (cases x)
  have open0: "\<not> closed (heap s c0)" using Cons.prems(2) x by auto
  have notin: "c0 \<notin> snd ` set xs" and dist: "distinct (map snd xs)" using Cons.prems(1) x by auto
  show ?case
  proof (cases "length (buf (heap s c0)) < capacity")
    case True
    let ?s1 = "s\<lparr>heap := (heap s)(c0 := (heap s c0)\<lparr>buf := buf (heap s c0) @ [msg]\<rparr>)\<rparr>"
    have step: "broadcast_loop msg (x # xs) s = broadcast_loop msg xs ?s1"
      using True open0 x by (simp add: try_send_def)
    have "heap (snd (broadcast_loop msg xs ?s1)) c =
       (if c \<in> snd ` set xs \<and> length (buf (heap ?s1 c)) < capacity
        then (heap ?s1 c)\<lparr>buf := buf (heap ?s1 c) @ [msg]\<rparr> else heap ?s1 c)"
      by (rule Cons.IH[OF dist]) (use Cons.prems(2) in auto)
    then show ?thesis using step True notin x by auto
  next
    case False
    let ?s1 = "logf ''Channel full, dropping message'' s"
    have step: "broadcast_loop msg (x # xs) s = broadcast_loop msg xs ?s1"
      using False open0 x by (simp add: try_send_def)
    have "heap (snd (broadcast_loop msg xs ?s1)) c =
       (if c \<in> snd ` set xs \<and> length (buf (heap ?s1 c)) < capacity
        then (heap ?s1 c)\<lparr>buf := buf (heap ?s1 c) @ [msg]\<rparr> else heap ?s1 c)"
      by (rule Cons.IH[OF dist]) (use Cons.prems(2) in \<open>auto simp: logf_def\<close>)
    then show ?thesis using step False notin x by (auto simp: logf_def)
  qed
qed

lemma broadcast_loop_logs:
  assumes "distinct (map snd xs)" "\<And>u c. (u, c) \<in> set xs \<Longrightarrow> \<not> closed (heap s c)"
  shows "logs (snd (broadcast_loop msg xs s)) =
     logs s @ replicate (length (filter (\<lambda>(u, c). \<not> length (buf (heap s c)) < capacity) xs))
                ''Channel full, dropping message''"
  using assms
proof (induction xs arbitrary: s)
  case Nil
  then show ?case by simp
next
  case (Cons x xs)
  obtain u c0 where x: "x = (u, c0)" by (cases x)
  have open0: "\<not> closed (heap s c0)" using Cons.prems(2) x by auto
  have notin: "c0 \<notin> snd ` set xs" and dist: "distinct (map snd xs)" using Cons.prems(1) x by auto
  show ?case
  proof (cases "length (buf (heap s c0)) < capacity")
    case True
    let ?s1 = "s\<lparr>heap := (heap s)(c0 := (heap s c0)\<lparr>buf := buf (heap s c0) @ [msg]\<rparr>)\<rparr>"
    have step: "broadcast_loop msg (x # xs) s = broadcast_loop msg xs ?s1"
      using True open0 x by (simp add: try_send_def)
    have same: "filter (\<lambda>(u, c). \<not> length (buf (heap ?s1 c)) < capacity) xs
              = filter (\<lambda>(u, c). \<not> length (buf (heap s c)) < capacity) xs"
      using notin by (intro filter_cong) (auto simp: rev_image_eqI)
    have "logs (snd (broadcast_loop msg xs ?s1)) =
       logs ?s1 @ replicate (length (filter (\<lambda>(u, c). \<not> length (buf (heap ?s1 c)) < capacity) xs))
                ''Channel full, dropping message''"
      by (rule Cons.IH[OF dist]) (use Cons.prems(2) in auto)
    then show ?thesis using step True x same by simp
  next
    case False
    let ?s1 = "logf ''Channel full, dropping message'' s"
    have step: "broadcast_loop msg (x # xs) s = broadcast_loop msg xs ?s1"
      using False open0 x by (simp add: try_send_def)
    have "logs (snd (broadcast_loop msg xs ?s1)) =
       logs ?s1 @ replicate (length (filter (\<lambda>(u, c). \<not> length (buf (heap ?s1 c)) < capacity) xs))
                ''Channel full, dropping message''"
      by (rule Cons.IH[OF dist]) (use Cons.prems(2) in \<open>auto simp: logf_def\<close>)
    then show ?thesis using step False x by (simp add: logf_def replicate_append_same)
  qed
qed

lemma broadcastMessage_effect:
  assumes "distinct (map snd (subscribers s (RoomId msg)))"
    "\<forall>(u, c) \<in> set (subscribers s (RoomId msg)). \<not> closed (heap s c)"
  shows "fst (broadcastMessage msg s) = Return ()"
    and "heap (snd (broadcastMessage msg s)) c =
      (if c \<in> snd ` set (subscribers s (RoomId msg)) \<and> length (buf (heap s c)) < capacity
       then (heap s c)\<lparr>buf := buf (heap s c) @ [msg]\<rparr> else heap s c)"
    and "logs (snd (broadcastMessage msg s)) =
      logs s @ replicate (length (filter (\<lambda>(u, c). \<not> length (buf (heap s c)) < capacity)
                                    (subscribers s (RoomId msg))))
                 ''Channel full, dropping message''"
proof -
  show "fst (broadcastMessage msg s) = Return ()"
    by (rule broadcastMessage_returns) (use assms(2) in blast)
  show "heap (snd (broadcastMessage msg s)) c =
      (if c \<in> snd ` set (subscribers s (RoomId msg)) \<and> length (buf (heap s c)) < capacity
       then (heap s c)\<lparr>buf := buf (heap s c) @ [msg]\<rparr> else heap s c)"
  proof (cases "map_of (roomStreams s) (RoomId msg)")
    case None
    then show ?thesis by (simp add: broadcastMessage_def subscribers_def)
  next
    case (Some m)
    then have "heap (snd (broadcast_loop msg m s)) c =
       (if c \<in> snd ` set m \<and> length (buf (heap s c)) < capacity
        then (heap s c)\<lparr>buf := buf (heap s c) @ [msg]\<rparr> else heap s c)"
      using assms by (intro broadcast_loop_heap) (auto simp: subscribers_def)
    then show ?thesis using Some by (simp add: broadcastMessage_def subscribers_def)
  qed
  show "logs (snd (broadcastMessage msg s)) =
      logs s @ replicate (length (filter (\<lambda>(u, c). \<not> length (buf (heap s c)) < capacity)
                                    (subscribers s (RoomId msg))))
                 ''Channel full, dropping message''"
  proof (cases "map_of (roomStreams s) (RoomId msg)")
    case None
    then show ?thesis by (simp add: broadcastMessage_def subscribers_def)
  next
    case (Some m)
    then have "logs (snd (broadcast_loop msg m s)) =
       logs s @ replicate (length (filter (\<lambda>(u, c). \<not> length (buf (heap s c)) < capacity) m))
                ''Channel full, dropping message''"
      using assms by (intro broadcast_loop_logs) (auto simp: subscribers_def)
    then show ?thesis using Some by (simp add: broadcastMessage_def subscribers_def)
  qed
qed


text \<open>
  C3 as stated fails on one point: nothing counts a drop. Bob's channel is full and cat's
  is not; the broadcast returns, cat's channel has the message, bob's is as it was, and
  the only trace of the drop is one line of the log: no field of the server changes with
  it.
\<close>

theorem drop_is_only_logged_counterexample:
  "broadcastMessage new_message bob_behind =
     (Return (),
      bob_behind\<lparr>heap := (heap bob_behind)(1 := \<lparr>buf = [new_message], closed = False\<rparr>),
                 logs := [''Channel full, dropping message'']\<rparr>)"
  by (simp add: broadcastMessage_def bob_behind_def new_message_def try_send_def capacity_def
      make_chan_def logf_def)

text \<open>
  C3, amended. In every state the server can reach, the channels registered for a room
  are pairwise distinct and open. On such a state one broadcast returns without a panic
  (each send is non-blocking); a subscriber's channel with room for it gets the message
  appended exactly once, a full one is left as it was, whatever the other channels hold;
  no other channel changes; and one line is logged for every full channel. The drops are
  logged, not counted.
\<close>

theorem broadcast_once_per_subscriber:
  "(distinct (map snd (subscribers (server (run parse cs (boot r))) room)) \<and>
    (\<forall>(u, c) \<in> set (subscribers (server (run parse cs (boot r))) room).
        \<not> closed (heap (server (run parse cs (boot r))) c))) \<and>
   (distinct (map snd (subscribers s (RoomId msg))) \<and>
    (\<forall>(u, c) \<in> set (subscribers s (RoomId msg)). \<not> closed (heap s c)) \<longrightarrow>
      fst (broadcastMessage msg s) = Return () \<and>
      (\<forall>c. heap (snd (broadcastMessage msg s)) c =
        (if c \<in> snd ` set (subscribers s (RoomId msg)) \<and> length (buf (heap s c)) < capacity
         then (heap s c)\<lparr>buf := buf (heap s c) @ [msg]\<rparr> else heap s c)) \<and>
      logs (snd (broadcastMessage msg s)) =
        logs s @ replicate (length (filter (\<lambda>(u, c). \<not> length (buf (heap s c)) < capacity)
                                      (subscribers s (RoomId msg))))
                   ''Channel full, dropping message'' \<and>
      roomStreams (snd (broadcastMessage msg s)) = roomStreams s \<and>
      rdb (snd (broadcastMessage msg s)) = rdb s \<and>
      allocated (snd (broadcastMessage msg s)) = allocated s)"
proof (intro conjI impI allI)
  have ok: "registry_ok (run parse cs (boot r))"
    by (rule registry_ok_run[OF registry_ok_boot])
  show "distinct (map snd (subscribers (server (run parse cs (boot r))) room))"
    by (rule subscribers_reachable(1)[OF ok])
  show "\<forall>(u, c) \<in> set (subscribers (server (run parse cs (boot r))) room).
        \<not> closed (heap (server (run parse cs (boot r))) c)"
    by (rule subscribers_reachable(2)[OF ok])
next
  assume a: "distinct (map snd (subscribers s (RoomId msg))) \<and>
    (\<forall>(u, c) \<in> set (subscribers s (RoomId msg)). \<not> closed (heap s c))"
  then have d: "distinct (map snd (subscribers s (RoomId msg)))"
    and op: "\<forall>(u, c) \<in> set (subscribers s (RoomId msg)). \<not> closed (heap s c)" by blast+
  note e = broadcastMessage_effect[OF d op]
  show "fst (broadcastMessage msg s) = Return ()" by (rule e(1))
  show "logs (snd (broadcastMessage msg s)) =
        logs s @ replicate (length (filter (\<lambda>(u, c). \<not> length (buf (heap s c)) < capacity)
                                      (subscribers s (RoomId msg))))
                   ''Channel full, dropping message''" by (rule e(3))
  obtain x s' where b: "broadcastMessage msg s = (x, s')" by (meson surj_pair)
  note f = broadcastMessage_frame[OF b]
  show "roomStreams (snd (broadcastMessage msg s)) = roomStreams s"
    "rdb (snd (broadcastMessage msg s)) = rdb s"
    "allocated (snd (broadcastMessage msg s)) = allocated s"
    using f b by simp_all
  fix c
  show "heap (snd (broadcastMessage msg s)) c =
        (if c \<in> snd ` set (subscribers s (RoomId msg)) \<and> length (buf (heap s c)) < capacity
         then (heap s c)\<lparr>buf := buf (heap s c) @ [msg]\<rparr> else heap s c)" by (rule e(2))
qed

theorem broadcast_once_per_subscriber_witness:
  "subscribers bob_behind (RoomId new_message) = [(''bob'', 0), (''cat'', 1)] \<and>
   fst (broadcastMessage new_message bob_behind) = Return () \<and>
   heap (snd (broadcastMessage new_message bob_behind)) 0 = heap bob_behind 0 \<and>
   buf (heap (snd (broadcastMessage new_message bob_behind)) 1) = [new_message] \<and>
   logs (snd (broadcastMessage new_message bob_behind)) = [''Channel full, dropping message'']"
proof -
  have subs: "subscribers bob_behind (RoomId new_message) = [(''bob'', 0), (''cat'', 1)]"
    by (simp add: subscribers_def bob_behind_def new_message_def)
  have pre: "distinct (map snd (subscribers bob_behind (RoomId new_message))) \<and>
    (\<forall>(u, c) \<in> set (subscribers bob_behind (RoomId new_message)). \<not> closed (heap bob_behind c))"
    unfolding subs by (simp add: bob_behind_def make_chan_def)
  note t = mp[OF conjunct2[OF broadcast_once_per_subscriber[where s=bob_behind and msg=new_message]] pre]
  have l0: "\<not> length (buf (heap bob_behind 0)) < capacity" "length (buf (heap bob_behind 1)) < capacity"
     "logs bob_behind = []" "buf (heap bob_behind 1) = []"
    by (simp_all add: bob_behind_def capacity_def make_chan_def)
  show ?thesis using t l0 unfolding subs by simp
qed

subsection \<open>What a stream sends\<close>









subsection \<open>From SendMessage to a subscriber's stream\<close>

lemma recv_rounds:
  "n \<le> length (buf (heap s (msgChan st))) \<Longrightarrow>
   stream_loop (replicate n (Recv True)) st s =
     (None,
      st\<lparr>sent := sent st @ take n (buf (heap s (msgChan st)))\<rparr>,
      s\<lparr>heap := (heap s)(msgChan st := (heap s (msgChan st))\<lparr>buf := drop n (buf (heap s (msgChan st)))\<rparr>)\<rparr>)"
proof (induction n arbitrary: st s)
  case 0
  then show ?case by simp
next
  case (Suc n)
  let ?c = "msgChan st"
  obtain m ms where b: "buf (heap s ?c) = m # ms" using Suc.prems by (cases "buf (heap s ?c)") auto
  let ?st1 = "st\<lparr>sent := sent st @ [m]\<rparr>"
  let ?s1 = "s\<lparr>heap := (heap s)(?c := (heap s ?c)\<lparr>buf := ms\<rparr>)\<rparr>"
  have step: "loop_step (Recv True) st s = (None, ?st1, ?s1)"
    using b by (simp add: loop_step_def try_recv_def)
  have n: "n \<le> length (buf (heap ?s1 (msgChan ?st1)))" using Suc.prems b by simp
  show ?case
    using step Suc.IH[OF n] b by (simp cong: if_cong)
qed

subsection \<open>What the handlers do to a channel's queue\<close>

lemma broadcast_loop_buf:
  "\<exists>extra. buf (heap (snd (broadcast_loop msg xs s)) c) = buf (heap s c) @ extra"
proof (induction xs arbitrary: s)
  case Nil
  then show ?case by simp
next
  case (Cons x xs)
  obtain u d where x: "x = (u, d)" by (cases x)
  show ?case
  proof (cases "try_send msg (heap s d)")
    case SendPanic
    then show ?thesis using x by simp
  next
    case (Sent ch)
    then have ch: "buf ch = buf (heap s d) @ [msg]"
      by (auto simp: try_send_def split: if_splits)
    obtain extra where "buf (heap (snd (broadcast_loop msg xs (s\<lparr>heap := (heap s)(d := ch)\<rparr>))) c) =
        buf (heap (s\<lparr>heap := (heap s)(d := ch)\<rparr>) c) @ extra"
      using Cons.IH by blast
    then show ?thesis using x Sent ch by (cases "c = d") auto
  next
    case Full
    obtain extra where "buf (heap (snd (broadcast_loop msg xs (logf ''Channel full, dropping message'' s))) c) =
        buf (heap (logf ''Channel full, dropping message'' s) c) @ extra"
      using Cons.IH by blast
    then show ?thesis using x Full by (auto simp: logf_def)
  qed
qed

lemma broadcastMessage_buf:
  "\<exists>extra. buf (heap (snd (broadcastMessage msg s)) c) = buf (heap s c) @ extra"
  using broadcast_loop_buf by (auto simp: broadcastMessage_def split: option.splits)

lemma SendMessage_buf:
  "\<exists>extra. buf (heap (snd (SendMessage fails req msgID now s)) c) = buf (heap s c) @ extra"
proof -
  obtain s0 where s0: "heap s0 = heap s"
    and d: "(\<exists>e. SendMessage fails req msgID now s = (Return (Inl e), s0)) \<or>
      (\<exists>msg. RoomId msg = room_id req \<and>
         SendMessage fails req msgID now s =
           (case broadcastMessage msg s0 of
              (Panic x, s5) \<Rightarrow> (Panic x, s5)
            | (Return _, s5) \<Rightarrow> (Return (Inr \<lparr>Success = True, SentMessage = msg\<rparr>), s5)))"
    using SendMessage_shape[of s fails req msgID now] by blast
  from d show ?thesis
  proof
    assume "\<exists>e. SendMessage fails req msgID now s = (Return (Inl e), s0)"
    then show ?thesis using s0 by auto
  next
    assume "\<exists>msg. RoomId msg = room_id req \<and>
         SendMessage fails req msgID now s =
           (case broadcastMessage msg s0 of
              (Panic x, s5) \<Rightarrow> (Panic x, s5)
            | (Return _, s5) \<Rightarrow> (Return (Inr \<lparr>Success = True, SentMessage = msg\<rparr>), s5))"
    then obtain msg where m: "SendMessage fails req msgID now s =
           (case broadcastMessage msg s0 of
              (Panic x, s5) \<Rightarrow> (Panic x, s5)
            | (Return _, s5) \<Rightarrow> (Return (Inr \<lparr>Success = True, SentMessage = msg\<rparr>), s5))" by blast
    obtain x s5 where b: "broadcastMessage msg s0 = (x, s5)" by (cases "broadcastMessage msg s0")
    have "snd (SendMessage fails req msgID now s) = snd (broadcastMessage msg s0)"
      using m b by (cases x) auto
    then show ?thesis using broadcastMessage_buf[of msg s0 c] s0 by simp
  qed
qed

lemma LeaveRoom_buf:
  "buf (heap (snd (LeaveRoom fails req s)) c) = buf (heap s c) \<and>
   (closed (heap s c) \<longrightarrow> closed (heap (snd (LeaveRoom fails req s)) c))"
proof -
  consider (err) e s0 where "LeaveRoom fails req s = (Return (Inl e), s0)" "heap s0 = heap s"
    | (go) r2 where "LeaveRoom fails req s =
      (case remove_stream (room_id req) (user_id req) (s\<lparr>rdb := r2\<rparr>) of
         None \<Rightarrow> (Panic ''close of closed channel'', s\<lparr>rdb := r2\<rparr>)
       | Some s' \<Rightarrow> (Return (Inr \<lparr>Success = True\<rparr>), s'))"
    using LeaveRoom_shape[of fails req s] by blast
  then show ?thesis
  proof cases
    case err
    then show ?thesis by simp
  next
    case go
    show ?thesis
    proof (cases "remove_stream (room_id req) (user_id req) (s\<lparr>rdb := r2\<rparr>)")
      case None
      then show ?thesis using go by simp
    next
      case (Some s')
      then show ?thesis using go remove_stream_frame[OF Some]
        by (auto split: option.splits)
    qed
  qed
qed

lemma register_open:
  "c \<noteq> allocated s \<Longrightarrow> \<not> closed (heap (snd (register room user s)) c) \<Longrightarrow>
   heap (snd (register room user s)) c = heap s c"
  by (auto simp: register_def Let_def logf_def update_conv' split: option.splits prod.splits if_splits)
     (metis closed_retire fst_conv)+

lemma loop_step_queue:
  assumes "loop_step ev st s = (r, st', s')"
  shows "\<forall>c. c \<noteq> msgChan st \<longrightarrow> heap s' c = heap s c"
    and "r = None \<Longrightarrow>
      (if ev = Recv True \<and> buf (heap s (msgChan st)) \<noteq> []
       then buf (heap s (msgChan st)) = hd (buf (heap s (msgChan st))) # buf (heap s' (msgChan st)) \<and>
            sent st' = sent st @ [hd (buf (heap s (msgChan st)))]
       else buf (heap s' (msgChan st)) = buf (heap s (msgChan st)) \<and> (\<exists>zs. sent st' = sent st @ zs))"
  using assms
  by (auto simp: loop_step_def logf_def try_recv_def Let_def
        split: event.splits if_splits option.splits list.splits)

lemma listener_step_queue:
  assumes "listener_step parse d st s = (st', s')"
  shows "sent st' = sent st" and "\<exists>extra. buf (heap s' c) = buf (heap s c) @ extra"
  using assms
  by (auto simp: listener_step_def logf_def try_send_def
        split: if_splits option.splits sum.splits send_result.splits delivery.splits offer.splits)

lemma cleanup_close_queue:
  assumes "cleanup_close st s = (st', s')"
  shows "buf (heap s' c) = buf (heap s c)" and "closed (heap s c) \<Longrightarrow> closed (heap s' c)"
  using assms
  by (auto simp: cleanup_close_def logf_def close_chan_def Let_def split: if_splits option.splits)


subsection \<open>What one step does to a call in its loop\<close>

lemma carries_untouched:
  assumes "calls w' ! i = calls w ! i" "\<not> takes i c"
    and "\<exists>extra. buf (heap (server w') i) = buf (heap (server w) i) @ extra"
    and "closed (heap (server w) i) \<Longrightarrow> closed (heap (server w') i)"
  shows "carries i c w w'"
  using assms unfolding carries_def by auto

lemma carries_same_channel:
  assumes "calls w' ! i = calls w ! i" "\<not> takes i c"
    and "\<not> closed (heap (server w') i) \<Longrightarrow> heap (server w') i = heap (server w) i"
  shows "carries i c w w'"
  using assms unfolding carries_def by auto

lemma carries_left: "fst (calls w' ! i) \<noteq> Looping \<Longrightarrow> carries i c w w'"
  unfolding carries_def by simp

lemma carries_JoinRoom:
  assumes ok: "registry_ok w"
  shows "carries i (CallJoinRoom fails req) w (exec parse (CallJoinRoom fails req) w)"
proof -
  have "\<not> crashed w" using ok by (simp add: registry_ok_def)
  then have "exec parse (CallJoinRoom fails req) w = w\<lparr>server := snd (JoinRoom parse fails req (server w))\<rparr>"
    by (simp add: exec_def)
  then show ?thesis using JoinRoom_frame[of parse fails req "server w"]
    by (intro carries_untouched) auto
qed

lemma carries_SendMessage:
  assumes ok: "registry_ok w"
  shows "carries i (CallSendMessage fails req msgID now) w (exec parse (CallSendMessage fails req msgID now) w)"
proof -
  let ?w' = "exec parse (CallSendMessage fails req msgID now) w"
  have nc: "\<not> crashed w" using ok by (simp add: registry_ok_def)
  have e: "server ?w' = snd (SendMessage fails req msgID now (server w))" "calls ?w' = calls w"
    using nc by (auto simp: exec_def split: prod.splits outcome.splits)
  show ?thesis
    using e SendMessage_buf[of fails req msgID now "server w" i]
      SendMessage_frame[of fails req msgID now "server w"]
    by (intro carries_untouched) auto
qed

lemma carries_LeaveRoom:
  assumes ok: "registry_ok w"
  shows "carries i (CallLeaveRoom fails req) w (exec parse (CallLeaveRoom fails req) w)"
proof -
  let ?w' = "exec parse (CallLeaveRoom fails req) w"
  have nc: "\<not> crashed w" using ok by (simp add: registry_ok_def)
  have e: "server ?w' = snd (LeaveRoom fails req (server w))" "calls ?w' = calls w"
    using nc by (auto simp: exec_def split: prod.splits outcome.splits)
  show ?thesis
    using e LeaveRoom_buf[of fails req "server w" i]
    by (intro carries_untouched) auto
qed

lemma carries_StreamMessages:
  assumes ok: "registry_ok w" and i: "i < length (calls w)"
  shows "carries i (CallStreamMessages fails req now sok) w
           (exec parse (CallStreamMessages fails req now sok) w)"
proof -
  have nc: "\<not> crashed w" using ok by (simp add: registry_ok_def)
  have al: "i \<noteq> allocated (server w)" using registry_ok_basic(3)[OF ok] i by simp
  let ?reg = "snd (register (room_id req) (user_id req) (server w))"
  note ro = register_open[OF al, of "room_id req" "user_id req"]
  consider (rej) e s0 where "open_stream fails req now sok (server w) = (Rejected e, s0)"
      "heap s0 = heap (server w)"
    | (opened) st where "open_stream fails req now sok (server w) = (Opened st, ?reg)"
    | (failed) st l where "open_stream fails req now sok (server w) = (Failed TransportError st, logf l ?reg)"
    using open_stream_shape[of fails req now sok "server w"] by blast
  then show ?thesis
  proof cases
    case rej
    then have "exec parse (CallStreamMessages fails req now sok) w = w\<lparr>server := s0\<rparr>"
      using nc by (simp add: exec_def)
    then show ?thesis using rej by (intro carries_same_channel) auto
  next
    case opened
    then have "exec parse (CallStreamMessages fails req now sok) w
        = w\<lparr>server := ?reg, calls := calls w @ [(Looping, st)]\<rparr>"
      using nc by (simp add: exec_def)
    then show ?thesis using ro i by (intro carries_same_channel) (auto simp: nth_append)
  next
    case failed
    then have "exec parse (CallStreamMessages fails req now sok) w
        = w\<lparr>server := logf ''Cancelling Redis context for user %s in room %s'' (logf l ?reg),
            calls := calls w @ [(Returning, st)]\<rparr>"
      using nc by (simp add: exec_def cancel_redis_def)
    then show ?thesis using ro i by (intro carries_same_channel) (auto simp: nth_append logf_def)
  qed
qed

lemma carries_Round:
  assumes ok: "registry_ok w" and i: "i < length (calls w)"
  shows "carries i (Round j ev) w (exec parse (Round j ev) w)"
proof (cases "j < length (calls w) \<and> fst (calls w ! j) = Looping")
  case False
  have nc: "\<not> crashed w" using ok by (simp add: registry_ok_def)
  have e: "exec parse (Round j ev) w = w" using False nc by (auto simp: exec_def)
  show ?thesis
  proof (cases "j = i")
    case True
    then have "fst (calls w ! i) \<noteq> Looping" using False i by simp
    then show ?thesis using e by (simp add: carries_left)
  next
    case ne: False
    have "\<not> takes i (Round j ev)" using ne by (cases ev) auto
    then show ?thesis using e by (intro carries_untouched) auto
  qed
next
  case True
  have nc: "\<not> crashed w" using ok by (simp add: registry_ok_def)
  have own: "msgChan (snd (calls w ! j)) = j" using registry_ok_basic(4)[OF ok] True by simp
  obtain r st' s' where ls: "loop_step ev (snd (calls w ! j)) (server w) = (r, st', s')"
    by (metis prod_cases3)
  note f = loop_step_frame[OF ls] and q = loop_step_queue[OF ls]
  show ?thesis
  proof (cases "j = i")
    case ne: False
    have nt: "\<not> takes i (Round j ev)" using ne by (cases ev) auto
    have h: "heap s' i = heap (server w) i" using q(1) own ne by simp
    show ?thesis
    proof (cases r)
      case None
      then have "exec parse (Round j ev) w = w\<lparr>server := s', calls := (calls w)[j := (Looping, st')]\<rparr>"
        using nc True ls by (simp add: exec_def)
      then show ?thesis using nt h ne by (intro carries_same_channel) auto
    next
      case (Some e)
      then have "exec parse (Round j ev) w =
          w\<lparr>server := logf ''Cancelling Redis context for user %s in room %s'' s',
            calls := (calls w)[j := (Returning, st')]\<rparr>"
        using nc True ls by (simp add: exec_def cancel_redis_def)
      then show ?thesis using nt h ne by (intro carries_same_channel) (auto simp: logf_def)
    qed
  next
    case eq: True
    show ?thesis
    proof (cases r)
      case (Some e)
      then have "exec parse (Round j ev) w =
          w\<lparr>server := logf ''Cancelling Redis context for user %s in room %s'' s',
            calls := (calls w)[j := (Returning, st')]\<rparr>"
        using nc True ls by (simp add: exec_def cancel_redis_def)
      then show ?thesis using eq i by (intro carries_left) auto
    next
      case None
      then have e: "exec parse (Round j ev) w = w\<lparr>server := s', calls := (calls w)[j := (Looping, st')]\<rparr>"
        using nc True ls by (simp add: exec_def)
      have tk: "takes i (Round j ev) = (ev = Recv True)" using eq by (cases ev) auto
      show ?thesis
        using q(2)[OF None] f True e eq own i tk unfolding carries_def
        by (auto split: if_splits)
    qed
  qed
qed

lemma carries_Published:
  assumes ok: "registry_ok w" and i: "i < length (calls w)"
  shows "carries i (Published j d) w (exec parse (Published j d) w)"
proof (cases "j < length (calls w)")
  case False
  have nc: "\<not> crashed w" using ok by (simp add: registry_ok_def)
  have "exec parse (Published j d) w = w" using False nc by (auto simp: exec_def)
  then show ?thesis by (intro carries_untouched) auto
next
  case True
  have nc: "\<not> crashed w" using ok by (simp add: registry_ok_def)
  obtain st' s' where ls: "listener_step parse d (snd (calls w ! j)) (server w) = (st', s')"
    by (meson surj_pair)
  note f = listener_step_frame[OF ls] and q = listener_step_queue[OF ls]
  have e: "exec parse (Published j d) w =
          w\<lparr>server := s', calls := (calls w)[j := (fst (calls w ! j), st')]\<rparr>"
    using nc True ls by (simp add: exec_def)
  show ?thesis
    unfolding carries_def e using q(1) q(2)[of i] f True
    by (cases "j = i") auto
qed

lemma carries_Unregister:
  assumes ok: "registry_ok w" and i: "i < length (calls w)"
  shows "carries i (Unregister j) w (exec parse (Unregister j) w)"
proof (cases "j < length (calls w) \<and> fst (calls w ! j) = Returning")
  case False
  have nc: "\<not> crashed w" using ok by (simp add: registry_ok_def)
  have "exec parse (Unregister j) w = w" using False nc by (auto simp: exec_def)
  then show ?thesis by (intro carries_untouched) auto
next
  case True
  have nc: "\<not> crashed w" using ok by (simp add: registry_ok_def)
  have e: "exec parse (Unregister j) w =
      w\<lparr>server := cleanup_unregister (snd (calls w ! j)) (server w),
        calls := (calls w)[j := (Unregistered, snd (calls w ! j))]\<rparr>"
    using nc True by (simp add: exec_def)
  show ?thesis
  proof (cases "j = i")
    case True
    then show ?thesis using e i by (intro carries_left) auto
  next
    case False
    then show ?thesis using e by (intro carries_same_channel) auto
  qed
qed

lemma carries_CloseOwn:
  assumes ok: "registry_ok w" and i: "i < length (calls w)"
  shows "carries i (CloseOwn j) w (exec parse (CloseOwn j) w)"
proof (cases "j < length (calls w) \<and> fst (calls w ! j) = Unregistered")
  case False
  have nc: "\<not> crashed w" using ok by (simp add: registry_ok_def)
  have "exec parse (CloseOwn j) w = w" using False nc by (auto simp: exec_def)
  then show ?thesis by (intro carries_untouched) auto
next
  case True
  have nc: "\<not> crashed w" using ok by (simp add: registry_ok_def)
  obtain st' s' where cc: "cleanup_close (snd (calls w ! j)) (server w) = (st', s')" by (meson surj_pair)
  note q = cleanup_close_queue[OF cc]
  have e: "exec parse (CloseOwn j) w = w\<lparr>server := s', calls := (calls w)[j := (Done, st')]\<rparr>"
    using True nc cc by (simp add: exec_def)
  show ?thesis
  proof (cases "j = i")
    case True
    then show ?thesis using e i by (intro carries_left) auto
  next
    case False
    then show ?thesis using e q(1)[of i] q(2)[of i] by (intro carries_untouched) auto
  qed
qed

lemma carries_BeginSendMessage:
  assumes ok: "registry_ok w"
  shows "carries i (BeginSendMessage fails req msgID now) w (exec parse (BeginSendMessage fails req msgID now) w)"
proof -
  have "\<not> crashed w" using ok by (simp add: registry_ok_def)
  then have "exec parse (BeginSendMessage fails req msgID now) w =
      w\<lparr>server := snd (SendMessage_begin fails req msgID now (server w))\<rparr>"
    by (simp add: exec_def)
  then show ?thesis using SendMessage_begin_frame[of fails req msgID now "server w"]
    by (intro carries_untouched) auto
qed

lemma exec_EndSendMessage_eq:
  assumes ok: "registry_ok w"
  shows "exec parse (EndSendMessage msg) w = w\<lparr>server := snd (broadcastMessage msg (server w))\<rparr>"
proof -
  have nc: "\<not> crashed w" using ok by (simp add: registry_ok_def)
  show ?thesis using nc SendMessage_end_returns[OF ok, of msg] by (simp add: exec_def)
qed

lemma carries_EndSendMessage:
  assumes ok: "registry_ok w"
  shows "carries i (EndSendMessage msg) w (exec parse (EndSendMessage msg) w)"
  using broadcastMessage_buf[of msg "server w" i]
    broadcastMessage_frame[of msg "server w" "fst (broadcastMessage msg (server w))" "snd (broadcastMessage msg (server w))"]
  unfolding exec_EndSendMessage_eq[OF ok]
  by (intro carries_untouched) auto

lemma exec_carries:
  "registry_ok w \<Longrightarrow> i < length (calls w) \<Longrightarrow> carries i c w (exec parse c w)"
  by (cases c) (simp_all only: carries_JoinRoom carries_SendMessage carries_LeaveRoom
      carries_StreamMessages carries_Round carries_Published carries_Unregister carries_CloseOwn
      carries_BeginSendMessage carries_EndSendMessage)

lemma exec_keeps_calls:
  assumes "i < length (calls w)"
  shows "i < length (calls (exec parse c w))"
proof -
  have "length (calls w) \<le> length (calls (exec parse c w))"
    by (cases c) (auto simp: exec_def cancel_redis_def split: prod.splits outcome.splits opened.splits option.splits)
  then show ?thesis using assms by simp
qed


lemma on_its_way_exec:
  assumes ok: "registry_ok w" and i: "i < length (calls w)" and o: "on_its_way msg before i k w"
  shows "on_its_way msg before i (if takes i c then k - 1 else k) (exec parse c w)"
  unfolding on_its_way_def
proof (intro impI)
  let ?w' = "exec parse c w"
  let ?k' = "if takes i c then k - 1 else k"
  assume a: "fst (calls ?w' ! i) = Looping \<and> \<not> closed (heap (server ?w') i)"
  have c: "carries i c w ?w'" by (rule exec_carries[OF ok i])
  have b: "fst (calls w ! i) = Looping \<and> \<not> closed (heap (server w) i)"
    using c a unfolding carries_def by blast
  obtain xs where xs: "sent (snd (calls w ! i)) = before @ xs"
    and q: "msg \<in> set xs \<or> (\<exists>pre post. buf (heap (server w) i) = pre @ msg # post \<and> length pre < k)"
    using o b unfolding on_its_way_def by blast
  show "\<exists>xs. sent (snd (calls ?w' ! i)) = before @ xs \<and>
          (msg \<in> set xs \<or> (\<exists>pre post. buf (heap (server ?w') i) = pre @ msg # post \<and> length pre < ?k'))"
  proof (cases "takes i c \<and> buf (heap (server w) i) \<noteq> []")
    case True
    let ?m = "hd (buf (heap (server w) i))"
    have pop: "buf (heap (server w) i) = ?m # buf (heap (server ?w') i)"
      and sn: "sent (snd (calls ?w' ! i)) = sent (snd (calls w ! i)) @ [?m]"
      using c a True unfolding carries_def by auto
    have s': "sent (snd (calls ?w' ! i)) = before @ (xs @ [?m])" using sn xs by simp
    from q show ?thesis
    proof
      assume "msg \<in> set xs"
      then show ?thesis using s' by auto
    next
      assume "\<exists>pre post. buf (heap (server w) i) = pre @ msg # post \<and> length pre < k"
      then obtain pre post where p: "buf (heap (server w) i) = pre @ msg # post" and l: "length pre < k"
        by blast
      show ?thesis
      proof (cases pre)
        case Nil
        then have "?m = msg" using p by simp
        then show ?thesis using s' by auto
      next
        case (Cons x pre')
        then have "buf (heap (server ?w') i) = pre' @ msg # post" using p pop by simp
        moreover have "length pre' < k - 1" using l Cons by simp
        ultimately show ?thesis using s' True by auto
      qed
    qed
  next
    case False
    obtain extra zs where ex: "buf (heap (server ?w') i) = buf (heap (server w) i) @ extra"
      and sn: "sent (snd (calls ?w' ! i)) = sent (snd (calls w ! i)) @ zs"
      using c a False unfolding carries_def by auto
    have s': "sent (snd (calls ?w' ! i)) = before @ (xs @ zs)" using sn xs by simp
    from q show ?thesis
    proof
      assume "msg \<in> set xs"
      then show ?thesis using s' by auto
    next
      assume "\<exists>pre post. buf (heap (server w) i) = pre @ msg # post \<and> length pre < k"
      then obtain pre post where p: "buf (heap (server w) i) = pre @ msg # post" and l: "length pre < k"
        by blast
      have nt: "\<not> takes i c" using False p by auto
      have "buf (heap (server ?w') i) = pre @ msg # (post @ extra)" using ex p by simp
      then show ?thesis using s' l nt by auto
    qed
  qed
qed

lemma on_its_way_run:
  "registry_ok w \<Longrightarrow> i < length (calls w) \<Longrightarrow> on_its_way msg before i k w \<Longrightarrow>
   on_its_way msg before i (k - recvs i cs) (run parse cs w)"
proof (induction cs arbitrary: w k)
  case Nil
  then show ?case by (simp add: recvs_def)
next
  case (Cons c cs)
  have "on_its_way msg before i ((if takes i c then k - 1 else k) - recvs i cs) (run parse cs (exec parse c w))"
    by (rule Cons.IH[OF registry_ok_exec[OF Cons.prems(1)] exec_keeps_calls[OF Cons.prems(2)]
          on_its_way_exec[OF Cons.prems]])
  moreover have "(if takes i c then k - 1 else k) - recvs i cs = k - recvs i (c # cs)"
    by (simp add: recvs_def)
  ultimately show ?case by simp
qed

subsection \<open>The two parts of SendMessage\<close>

lemma SendMessage_begin_message:
  "SendMessage_begin fails req msgID now s = (Inr msg, s') \<Longrightarrow>
   msg = \<lparr>Id = msgID, UserId = user_id req, RoomId = room_id req, Content = content req,
          Timestamp = unix_milli (UnixNano now)\<rparr>"
  by (auto simp: SendMessage_begin_def Let_def split: if_splits sum.splits prod.splits)


lemma SendMessage_split:
  "SendMessage fails req msgID now s =
     (case SendMessage_begin fails req msgID now s of
        (Inl e, s1) \<Rightarrow> (Return (Inl e), s1)
      | (Inr msg, s1) \<Rightarrow> SendMessage_end msg s1)"
  by (simp add: SendMessage_def SendMessage_begin_def SendMessage_end_def Let_def
        split: sum.splits prod.splits)

text \<open>
  C2 as stated fails in two ways. A subscriber who is behind: bob's channel holds 200
  undelivered messages; ann's SendMessage succeeds and returns the message m9, but the
  broadcast leaves bob's channel as it was, the listener of bob's call, offering its copy
  next, drops it as well, and the 200 messages bob's stream then sends are the old ones:
  the channel is empty and m9 was not sent to bob. A subscriber whose entry is gone: ann's
  second stream (call 1) is in its loop with its channel open, but the cleanup of her
  first call has deleted the entry of her key, so the broadcast of m9 puts nothing on the
  channel; what call 1 sends is the copy its listener rebuilds from the stored record,
  whose timestamp is cut to the second and differs from the one SendMessage returned.
\<close>

theorem undelivered_message_counterexample:
  "fst (SendMessage nofail ann_hello ''m9'' noon bob_behind) =
     Return (Inr \<lparr>Success = True, SentMessage = new_message\<rparr>) \<and>
   lookup (roomStreams bob_behind) ''lobby'' ''bob'' = Some 0 \<and>
   buf (heap bob_behind 0) = replicate 200 old_message \<and>
   buf (heap (snd (SendMessage nofail ann_hello ''m9'' noon bob_behind)) 0) = replicate 200 old_message \<and>
   new_message \<notin> set (replicate 200 old_message) \<and>
   buf (heap (snd (listener_step parse_example (Payload ''m9'' False ToChannel) bob_stream
                     (snd (SendMessage nofail ann_hello ''m9'' noon bob_behind)))) 0) =
     replicate 200 old_message \<and>
   fst (stream_loop (replicate 200 (Recv True)) bob_stream
          (snd (SendMessage nofail ann_hello ''m9'' noon bob_behind))) = None \<and>
   sent (fst (snd (stream_loop (replicate 200 (Recv True)) bob_stream
          (snd (SendMessage nofail ann_hello ''m9'' noon bob_behind))))) = replicate 200 old_message \<and>
   buf (heap (snd (snd (stream_loop (replicate 200 (Recv True)) bob_stream
          (snd (SendMessage nofail ann_hello ''m9'' noon bob_behind))))) 0) = [] \<and>
   fst (calls ann_reconnected ! 1) = Looping \<and>
   request (snd (calls ann_reconnected ! 1)) = ann_lobby \<and>
   msgChan (snd (calls ann_reconnected ! 1)) = 1 \<and>
   heap (server ann_reconnected) 1 = \<lparr>buf = [], closed = False\<rparr> \<and>
   lookup (roomStreams (server ann_reconnected)) ''lobby'' ''ann'' = None \<and>
   fst (SendMessage nofail ann_hello ''m9'' later (server ann_reconnected)) =
     Return (Inr \<lparr>Success = True, SentMessage = later_message\<rparr>) \<and>
   buf (heap (snd (SendMessage nofail ann_hello ''m9'' later (server ann_reconnected))) 1) = [] \<and>
   sent (snd (calls (run parse_example
                       [CallSendMessage nofail ann_hello ''m9'' later,
                        Published 1 (Payload ''m9'' False ToChannel), Round 1 (Recv True)]
                       ann_reconnected) ! 1)) =
     [\<lparr>Id = ''keep-alive'', UserId = ''ann'', RoomId = ''lobby'', Content = [],
       Timestamp = 1700000001987\<rparr>,
      later_message\<lparr>Timestamp := 1700000001000\<rparr>] \<and>
   buf (heap (server (run parse_example
                       [CallSendMessage nofail ann_hello ''m9'' later,
                        Published 1 (Payload ''m9'' False ToChannel), Round 1 (Recv True)]
                       ann_reconnected)) 1) = []"
proof -
  obtain s' where first: "SendMessage nofail ann_hello ''m9'' noon bob_behind =
        (Return (Inr \<lparr>Success = True, SentMessage = new_message\<rparr>), s')"
    and h: "buf (heap s' 0) = replicate 200 old_message"
    and k: "keys (rdb s') ''message:m9'' = Some (RHash [(''user_id'', ''ann''), (''room_id'', ''lobby''),
                 (''content'', ''hello''), (''timestamp'', ''2023-11-14T22:13:20Z'')])"
    by (simp add: eval_defs bob_behind_def new_message_def capacity_def unix_milli_examples)
  have reg: "lookup (roomStreams bob_behind) ''lobby'' ''bob'' = Some 0"
    and h0: "buf (heap bob_behind 0) = replicate 200 old_message"
    by (simp_all add: lookup_def bob_behind_def)
  have ne: "new_message \<notin> set (replicate 200 old_message)"
    by (simp add: new_message_def old_message_def)
  have l: "buf (heap (snd (listener_step parse_example (Payload ''m9'' False ToChannel) bob_stream s')) 0) =
      replicate 200 old_message"
    using h k by (simp add: listener_step_def bob_stream_def query_def HGetAll_def resolve_def index_def
        parse_example_def try_send_def capacity_def logf_def split: if_splits)
  have c0: "msgChan bob_stream = 0" "sent bob_stream = []" by (simp_all add: bob_stream_def)
  have "200 \<le> length (buf (heap s' (msgChan bob_stream)))" using h c0 by simp
  note r = recv_rounds[OF this]
  have loop: "fst (stream_loop (replicate 200 (Recv True)) bob_stream s') = None"
    "sent (fst (snd (stream_loop (replicate 200 (Recv True)) bob_stream s'))) = replicate 200 old_message"
    "buf (heap (snd (snd (stream_loop (replicate 200 (Recv True)) bob_stream s'))) 0) = []"
    using r h c0 by simp_all
  have behind: "fst (SendMessage nofail ann_hello ''m9'' noon bob_behind) =
     Return (Inr \<lparr>Success = True, SentMessage = new_message\<rparr>) \<and>
   lookup (roomStreams bob_behind) ''lobby'' ''bob'' = Some 0 \<and>
   buf (heap bob_behind 0) = replicate 200 old_message \<and>
   buf (heap (snd (SendMessage nofail ann_hello ''m9'' noon bob_behind)) 0) = replicate 200 old_message \<and>
   new_message \<notin> set (replicate 200 old_message) \<and>
   buf (heap (snd (listener_step parse_example (Payload ''m9'' False ToChannel) bob_stream
                     (snd (SendMessage nofail ann_hello ''m9'' noon bob_behind)))) 0) =
     replicate 200 old_message \<and>
   fst (stream_loop (replicate 200 (Recv True)) bob_stream
          (snd (SendMessage nofail ann_hello ''m9'' noon bob_behind))) = None \<and>
   sent (fst (snd (stream_loop (replicate 200 (Recv True)) bob_stream
          (snd (SendMessage nofail ann_hello ''m9'' noon bob_behind))))) = replicate 200 old_message \<and>
   buf (heap (snd (snd (stream_loop (replicate 200 (Recv True)) bob_stream
          (snd (SendMessage nofail ann_hello ''m9'' noon bob_behind))))) 0) = []"
    using first reg h0 h ne l loop by simp
  have gone: "fst (calls ann_reconnected ! 1) = Looping \<and>
   request (snd (calls ann_reconnected ! 1)) = ann_lobby \<and>
   msgChan (snd (calls ann_reconnected ! 1)) = 1 \<and>
   heap (server ann_reconnected) 1 = \<lparr>buf = [], closed = False\<rparr> \<and>
   lookup (roomStreams (server ann_reconnected)) ''lobby'' ''ann'' = None \<and>
   fst (SendMessage nofail ann_hello ''m9'' later (server ann_reconnected)) =
     Return (Inr \<lparr>Success = True, SentMessage = later_message\<rparr>) \<and>
   buf (heap (snd (SendMessage nofail ann_hello ''m9'' later (server ann_reconnected))) 1) = [] \<and>
   sent (snd (calls (run parse_example
                       [CallSendMessage nofail ann_hello ''m9'' later,
                        Published 1 (Payload ''m9'' False ToChannel), Round 1 (Recv True)]
                       ann_reconnected) ! 1)) =
     [\<lparr>Id = ''keep-alive'', UserId = ''ann'', RoomId = ''lobby'', Content = [],
       Timestamp = 1700000001987\<rparr>,
      later_message\<lparr>Timestamp := 1700000001000\<rparr>] \<and>
   buf (heap (server (run parse_example
                       [CallSendMessage nofail ann_hello ''m9'' later,
                        Published 1 (Payload ''m9'' False ToChannel), Round 1 (Recv True)]
                       ann_reconnected)) 1) = []"
    by (simp add: ann_reconnected_def eval_defs retire_def update_conv' lookup_def later_message_def
        parse_example_def resolve_def index_def unix_milli_examples capacity_def
        unix_milli_def int64_quot_def Millisecond_def)
  show ?thesis using behind gone by simp
qed

text \<open>
  C2, amended. SendMessage is taken in its two parts, with any steps of other goroutines
  before, between and after them. Let the server be in any state it can reach when the
  broadcast of a SendMessage to room R starts, with a channel registered for R and user U
  (it is the channel of a call of StreamMessages made for R and U). The handler returns
  the message it built from the request, its fresh ID and the clock. If the channel holds fewer than 200 messages,
  the broadcast appends that message to it; and whatever runs afterwards, as long as the
  call is still in its main loop and its channel is not closed, the call has sent that
  very message on U's stream once it has taken, after the broadcast, more messages from
  its channel than were queued before. If the channel holds 200 messages, the broadcast
  leaves it as it was.
\<close>

theorem sent_message_reaches_open_stream:
  "w = run parse (cs0 @ BeginSendMessage fails req msgID now # cs1) (boot r) \<and>
   SendMessage_begin fails req msgID now (server (run parse cs0 (boot r))) = (Inr msg, s0) \<and>
   lookup (roomStreams (server w)) (room_id req) u = Some i \<and>
   w1 = exec parse (EndSendMessage msg) w \<and>
   w2 = run parse cs2 w1 \<longrightarrow>
     i < length (calls w) \<and>
     request (snd (calls w ! i)) = \<lparr>user_id = u, room_id = room_id req\<rparr> \<and>
     msg = \<lparr>Id = msgID, UserId = user_id req, RoomId = room_id req, Content = content req,
            Timestamp = unix_milli (UnixNano now)\<rparr> \<and>
     SendMessage_end msg (server w) =
       (Return (Inr \<lparr>Success = True, SentMessage = msg\<rparr>), server w1) \<and>
     (length (buf (heap (server w) i)) < capacity \<longrightarrow>
        buf (heap (server w1) i) = buf (heap (server w) i) @ [msg] \<and>
        (fst (calls w2 ! i) = Looping \<and> \<not> closed (heap (server w2) i) \<and>
         length (buf (heap (server w) i)) < recvs i cs2 \<longrightarrow>
           (\<exists>xs. sent (snd (calls w2 ! i)) = sent (snd (calls w ! i)) @ xs \<and> msg \<in> set xs))) \<and>
     (capacity \<le> length (buf (heap (server w) i)) \<longrightarrow>
        buf (heap (server w1) i) = buf (heap (server w) i))"
proof (intro impI)
  assume a: "w = run parse (cs0 @ BeginSendMessage fails req msgID now # cs1) (boot r) \<and>
   SendMessage_begin fails req msgID now (server (run parse cs0 (boot r))) = (Inr msg, s0) \<and>
   lookup (roomStreams (server w)) (room_id req) u = Some i \<and>
   w1 = exec parse (EndSendMessage msg) w \<and>
   w2 = run parse cs2 w1"
  then have w: "w = run parse (cs0 @ BeginSendMessage fails req msgID now # cs1) (boot r)"
    and b: "SendMessage_begin fails req msgID now (server (run parse cs0 (boot r))) = (Inr msg, s0)"
    and l: "lookup (roomStreams (server w)) (room_id req) u = Some i"
    and w1: "w1 = exec parse (EndSendMessage msg) w" and w2: "w2 = run parse cs2 w1"
    by blast+
  have ok: "registry_ok w" unfolding w by (rule registry_ok_run[OF registry_ok_boot])
  have i: "i < length (calls w)" by (rule registry_okD(1)[OF ok l])
  have m: "msg = \<lparr>Id = msgID, UserId = user_id req, RoomId = room_id req, Content = content req,
            Timestamp = unix_milli (UnixNano now)\<rparr>"
    by (rule SendMessage_begin_message[OF b])
  have room: "RoomId msg = room_id req" using m by simp
  have own: "request (snd (calls w ! i)) = \<lparr>user_id = u, room_id = room_id req\<rparr>"
    using registry_okD(4,5)[OF ok l] by simp
  have e: "w1 = w\<lparr>server := snd (broadcastMessage msg (server w))\<rparr>"
    unfolding w1 by (rule exec_EndSendMessage_eq[OF ok])
  have r: "SendMessage_end msg (server w) =
       (Return (Inr \<lparr>Success = True, SentMessage = msg\<rparr>), server w1)"
    using SendMessage_end_returns[OF ok, of msg] e by simp
  have sub: "i \<in> snd ` set (subscribers (server w) (RoomId msg))"
    using l room by (auto simp: lookup_def subscribers_def split: option.splits dest!: map_of_SomeD) force
  have h: "heap (server w1) i =
      (if length (buf (heap (server w) i)) < capacity
       then (heap (server w) i)\<lparr>buf := buf (heap (server w) i) @ [msg]\<rparr> else heap (server w) i)"
    using broadcastMessage_effect(2)[OF subscribers_reachable[OF ok, of "RoomId msg"], of i] sub e
    by simp
  have full: "capacity \<le> length (buf (heap (server w) i)) \<longrightarrow>
        buf (heap (server w1) i) = buf (heap (server w) i)"
    using h by simp
  have room_left: "buf (heap (server w1) i) = buf (heap (server w) i) @ [msg] \<and>
        (fst (calls w2 ! i) = Looping \<and> \<not> closed (heap (server w2) i) \<and>
         length (buf (heap (server w) i)) < recvs i cs2 \<longrightarrow>
           (\<exists>xs. sent (snd (calls w2 ! i)) = sent (snd (calls w ! i)) @ xs \<and> msg \<in> set xs))"
    if n: "length (buf (heap (server w) i)) < capacity"
  proof
    show q: "buf (heap (server w1) i) = buf (heap (server w) i) @ [msg]" using h n by simp
    have ok1: "registry_ok w1" unfolding w1 by (rule registry_ok_exec[OF ok])
    have i1: "i < length (calls w1)" using i e by simp
    have "on_its_way msg (sent (snd (calls w ! i))) i (Suc (length (buf (heap (server w) i)))) w1"
      unfolding on_its_way_def using q e by auto
    then have o: "on_its_way msg (sent (snd (calls w ! i))) i
        (Suc (length (buf (heap (server w) i))) - recvs i cs2) w2"
      unfolding w2 by (rule on_its_way_run[OF ok1 i1])
    show "fst (calls w2 ! i) = Looping \<and> \<not> closed (heap (server w2) i) \<and>
         length (buf (heap (server w) i)) < recvs i cs2 \<longrightarrow>
           (\<exists>xs. sent (snd (calls w2 ! i)) = sent (snd (calls w ! i)) @ xs \<and> msg \<in> set xs)"
      using o unfolding on_its_way_def by auto
  qed
  show "i < length (calls w) \<and>
     request (snd (calls w ! i)) = \<lparr>user_id = u, room_id = room_id req\<rparr> \<and>
     msg = \<lparr>Id = msgID, UserId = user_id req, RoomId = room_id req, Content = content req,
            Timestamp = unix_milli (UnixNano now)\<rparr> \<and>
     SendMessage_end msg (server w) =
       (Return (Inr \<lparr>Success = True, SentMessage = msg\<rparr>), server w1) \<and>
     (length (buf (heap (server w) i)) < capacity \<longrightarrow>
        buf (heap (server w1) i) = buf (heap (server w) i) @ [msg] \<and>
        (fst (calls w2 ! i) = Looping \<and> \<not> closed (heap (server w2) i) \<and>
         length (buf (heap (server w) i)) < recvs i cs2 \<longrightarrow>
           (\<exists>xs. sent (snd (calls w2 ! i)) = sent (snd (calls w ! i)) @ xs \<and> msg \<in> set xs))) \<and>
     (capacity \<le> length (buf (heap (server w) i)) \<longrightarrow>
        buf (heap (server w1) i) = buf (heap (server w) i))"
    using i own m r room_left full by blast
qed

theorem sent_message_reaches_open_stream_witness:
  "fst (SendMessage_begin nofail ann_hello ''m9'' later
          (server (run parse_example before_send (boot empty_store)))) = Inr later_message \<and>
   lookup (roomStreams (server bob_has_mail)) ''lobby'' ''bob'' = Some 0 \<and>
   map Id (buf (heap (server bob_has_mail) 0)) = [''m1'', ''m1''] \<and>
   recvs 0 after_send = 3 \<and>
   fst (calls (run parse_example (EndSendMessage later_message # after_send) bob_has_mail) ! 0) = Looping \<and>
   later_message \<in> set (sent (snd (calls
      (run parse_example (EndSendMessage later_message # after_send) bob_has_mail) ! 0)))"
proof -
  let ?w = "run parse_example (before_send @ BeginSendMessage nofail ann_hello ''m9'' later # during_send)
       (boot empty_store)"
  let ?w1 = "exec parse_example (EndSendMessage later_message) ?w"
  let ?w2 = "run parse_example after_send ?w1"
  obtain s0 where b: "SendMessage_begin nofail ann_hello ''m9'' later
          (server (run parse_example before_send (boot empty_store))) = (Inr later_message, s0)"
    by (simp add: before_send_def later_message_def eval_defs bob_lobby_def ann_again_def
        update_conv' capacity_def unix_milli_examples)
  have l: "lookup (roomStreams (server ?w)) (room_id ann_hello) ''bob'' = Some 0"
    and q: "map Id (buf (heap (server ?w) 0)) = [''m1'', ''m1'']"
    by (simp_all add: before_send_def during_send_def eval_defs bob_lobby_def ann_again_def
        parse_example_def resolve_def index_def unix_milli_examples update_conv' capacity_def lookup_def)
  have n: "length (buf (heap (server ?w) 0)) = 2" using q by (metis length_map length_Cons list.size(3) numeral_2_eq_2)
  have rc: "recvs 0 after_send = 3" by (simp add: recvs_def after_send_def)
  have st: "fst (calls ?w2 ! 0) = Looping" "\<not> closed (heap (server ?w2) 0)"
    by (simp_all add: before_send_def during_send_def after_send_def later_message_def eval_defs
        bob_lobby_def ann_again_def parse_example_def resolve_def index_def unix_milli_examples
        update_conv' capacity_def unix_milli_def int64_quot_def Millisecond_def)
  have pre: "?w = run parse_example (before_send @ BeginSendMessage nofail ann_hello ''m9'' later # during_send)
       (boot empty_store) \<and>
     SendMessage_begin nofail ann_hello ''m9'' later
          (server (run parse_example before_send (boot empty_store))) = (Inr later_message, s0) \<and>
     lookup (roomStreams (server ?w)) (room_id ann_hello) ''bob'' = Some 0 \<and>
     ?w1 = exec parse_example (EndSendMessage later_message) ?w \<and>
     ?w2 = run parse_example after_send ?w1"
    using b l by simp
  note t = mp[OF sent_message_reaches_open_stream pre]
  have "length (buf (heap (server ?w) 0)) < capacity" using n by (simp add: capacity_def)
  then have "fst (calls ?w2 ! 0) = Looping \<and> \<not> closed (heap (server ?w2) 0) \<and>
         length (buf (heap (server ?w) 0)) < recvs 0 after_send \<longrightarrow>
           (\<exists>xs. sent (snd (calls ?w2 ! 0)) = sent (snd (calls ?w ! 0)) @ xs \<and> later_message \<in> set xs)"
    using t by blast
  then have "\<exists>xs. sent (snd (calls ?w2 ! 0)) = sent (snd (calls ?w ! 0)) @ xs \<and> later_message \<in> set xs"
    using st n rc by simp
  then have m: "later_message \<in> set (sent (snd (calls ?w2 ! 0)))" by auto
  have w2: "run parse_example (EndSendMessage later_message # after_send) bob_has_mail = ?w2"
    by (simp only: bob_has_mail_def run.simps)
  show ?thesis
    unfolding w2 using b l q rc st(1) m by (simp add: bob_has_mail_def ann_hello_def)
qed

subsection \<open>One channel per room and user\<close>

text \<open>
  C1 as stated fails on its last part: a channel does get a second \<^verbatim>\<open>close\<close>. Ann has a
  stream open (call 0, channel 0) and opens another for the same room (call 1): the
  registration closes channel 0. Call 0 then finds its channel closed, returns, and its
  cleanup, whose flag \<^verbatim>\<open>closed\<close> is still unset, closes channel 0 again: the close
  panics, and the panic is recovered and logged.
\<close>

theorem second_close_counterexample:
  "\<not> closed (heap (server ann_streaming) 0) \<and>
   closed (heap (server (exec parse_example (CallStreamMessages nofail ann_lobby later True) ann_streaming)) 0) \<and>
   fst (calls ann_reconnected ! 0) = Unregistered \<and>
   msgChan (snd (calls ann_reconnected ! 0)) = 0 \<and>
   closedFlag (snd (calls ann_reconnected ! 0)) = False \<and>
   close_chan (heap (server ann_reconnected) 0) = None \<and>
   logs (server (exec parse_example (CloseOwn 0) ann_reconnected)) =
     logs (server ann_reconnected) @
       [''Closing message channel for user %s in room %s'',
        ''Recovered from panic when closing channel: %v'']"
  by (simp add: ann_reconnected_def eval_defs retire_def update_conv' unix_milli_examples)

text \<open>
  C1, amended. In every state the server can reach, no panic has escaped a recover (so the
  unguarded \<^verbatim>\<open>close\<close> of LeaveRoom has always met an open channel), and a channel stored
  in the registry for a room and a user is open and is stored under no other key. When
  StreamMessages registers a channel for that room and user, the channel stored before is
  closed, the fresh channel, open, takes its place, and the old channel is under no key
  of the registry any more.
\<close>

theorem one_open_channel_per_room_and_user:
  "w = run parse cs (boot r) \<longrightarrow>
     \<not> crashed w \<and>
     (\<forall>room user c. lookup (roomStreams (server w)) room user = Some c \<longrightarrow>
        \<not> closed (heap (server w) c) \<and>
        (\<forall>room' user'. lookup (roomStreams (server w)) room' user' = Some c \<longrightarrow>
            room' = room \<and> user' = user) \<and>
        fst (register room user (server w)) \<noteq> c \<and>
        closed (heap (snd (register room user (server w))) c) \<and>
        \<not> closed (heap (snd (register room user (server w))) (fst (register room user (server w)))) \<and>
        lookup (roomStreams (snd (register room user (server w)))) room user =
          Some (fst (register room user (server w))) \<and>
        (\<forall>room' user'. lookup (roomStreams (snd (register room user (server w)))) room' user' \<noteq> Some c) \<and>
        (\<exists>s'. remove_stream room user (server w) = Some s' \<and> closed (heap s' c) \<and>
           (\<forall>room' user'. lookup (roomStreams s') room' user' \<noteq> Some c)))"
proof (intro impI)
  assume w: "w = run parse cs (boot r)"
  have ok: "registry_ok w" unfolding w by (rule registry_ok_run[OF registry_ok_boot])
  have al: "allocated (server w) = length (calls w)" by (rule registry_ok_basic(3)[OF ok])
  have nc: "\<not> crashed w" by (rule registry_ok_basic(1)[OF ok])
  have main: "\<not> closed (heap (server w) c) \<and>
        (\<forall>room' user'. lookup (roomStreams (server w)) room' user' = Some c \<longrightarrow>
            room' = room \<and> user' = user) \<and>
        fst (register room user (server w)) \<noteq> c \<and>
        closed (heap (snd (register room user (server w))) c) \<and>
        \<not> closed (heap (snd (register room user (server w))) (fst (register room user (server w)))) \<and>
        lookup (roomStreams (snd (register room user (server w)))) room user =
          Some (fst (register room user (server w))) \<and>
        (\<forall>room' user'. lookup (roomStreams (snd (register room user (server w)))) room' user' \<noteq> Some c) \<and>
        (\<exists>s'. remove_stream room user (server w) = Some s' \<and> closed (heap s' c) \<and>
           (\<forall>room' user'. lookup (roomStreams s') room' user' \<noteq> Some c))"
    if l: "lookup (roomStreams (server w)) room user = Some c" for room user c
  proof -
    let ?s = "server w"
    note d = registry_okD[OF ok l]
    have open_c: "\<not> closed (heap ?s c)" by (rule d(2))
    have uniq: "room' = room \<and> user' = user"
      if "lookup (roomStreams ?s) room' user' = Some c" for room' user'
      using registry_okD(4,5)[OF ok that] d(4,5) by simp
    have lt: "c \<noteq> allocated ?s" using d(1) al by simp
    have ne: "lookup (roomStreams ?s) room user \<noteq> Some (allocated ?s)" using l lt by simp
    have f: "fst (register room user ?s) = allocated ?s" by (rule register_frame(1))
    have c1: "closed (heap (snd (register room user ?s)) c)"
      using closed_register[OF ne, of c] l lt by simp
    have c2: "\<not> closed (heap (snd (register room user ?s)) (allocated ?s))"
      using closed_register[OF ne, of "allocated ?s"] by simp
    have l1: "lookup (roomStreams (snd (register room user ?s))) room user = Some (allocated ?s)"
      by (simp add: lookup_register)
    have gone: "lookup (roomStreams (snd (register room user ?s))) room' user' \<noteq> Some c" for room' user'
    proof (cases "room' = room \<and> user' = user")
      case True
      then show ?thesis using lt by (simp add: lookup_register)
    next
      case False
      then have "lookup (roomStreams (snd (register room user ?s))) room' user' =
                   lookup (roomStreams ?s) room' user'"
        by (auto simp: lookup_register)
      then show ?thesis using uniq[of room' user'] False by auto
    qed
    have "remove_stream room user ?s \<noteq> None"
      using l open_c by (simp add: remove_stream_None)
    then obtain s' where r: "remove_stream room user ?s = Some s'" by blast
    have c3: "closed (heap s' c)"
      using remove_stream_frame[OF r] l by simp
    have gone': "lookup (roomStreams s') room' user' \<noteq> Some c" for room' user'
      using lookup_remove_stream[OF r, of room' user'] uniq[of room' user'] by (auto split: if_splits)
    have leave: "\<exists>s'. remove_stream room user ?s = Some s' \<and> closed (heap s' c) \<and>
           (\<forall>room' user'. lookup (roomStreams s') room' user' \<noteq> Some c)"
      using r c3 gone' by blast
    show ?thesis
      using open_c uniq lt c1 c2 l1 gone leave unfolding f by blast
  qed
  show "\<not> crashed w \<and>
     (\<forall>room user c. lookup (roomStreams (server w)) room user = Some c \<longrightarrow>
        \<not> closed (heap (server w) c) \<and>
        (\<forall>room' user'. lookup (roomStreams (server w)) room' user' = Some c \<longrightarrow>
            room' = room \<and> user' = user) \<and>
        fst (register room user (server w)) \<noteq> c \<and>
        closed (heap (snd (register room user (server w))) c) \<and>
        \<not> closed (heap (snd (register room user (server w))) (fst (register room user (server w)))) \<and>
        lookup (roomStreams (snd (register room user (server w)))) room user =
          Some (fst (register room user (server w))) \<and>
        (\<forall>room' user'. lookup (roomStreams (snd (register room user (server w)))) room' user' \<noteq> Some c) \<and>
        (\<exists>s'. remove_stream room user (server w) = Some s' \<and> closed (heap s' c) \<and>
           (\<forall>room' user'. lookup (roomStreams s') room' user' \<noteq> Some c)))"
    using nc main by blast
qed

theorem one_open_channel_per_room_and_user_witness:
  "ann_streaming =
     run parse_example [CallJoinRoom nofail ann_lobby, CallStreamMessages nofail ann_lobby noon True]
       (boot empty_store) \<and>
   lookup (roomStreams (server ann_streaming)) ''lobby'' ''ann'' = Some 0 \<and>
   \<not> crashed ann_streaming \<and>
   \<not> closed (heap (server ann_streaming) 0) \<and>
   fst (register ''lobby'' ''ann'' (server ann_streaming)) = 1 \<and>
   closed (heap (snd (register ''lobby'' ''ann'' (server ann_streaming))) 0) \<and>
   \<not> closed (heap (snd (register ''lobby'' ''ann'' (server ann_streaming))) 1) \<and>
   lookup (roomStreams (snd (register ''lobby'' ''ann'' (server ann_streaming)))) ''lobby'' ''ann'' = Some 1 \<and>
   lookup (roomStreams (snd (register ''lobby'' ''ann'' (server ann_streaming)))) ''lobby'' ''bob'' \<noteq> Some 0 \<and>
   (\<exists>s'. remove_stream ''lobby'' ''ann'' (server ann_streaming) = Some s' \<and> closed (heap s' 0))"
proof -
  have run: "ann_streaming =
     run parse_example [CallJoinRoom nofail ann_lobby, CallStreamMessages nofail ann_lobby noon True]
       (boot empty_store)"
    by (simp only: ann_streaming_def)
  have l: "lookup (roomStreams (server ann_streaming)) ''lobby'' ''ann'' = Some 0"
    by (simp add: eval_defs lookup_def)
  have f: "fst (register ''lobby'' ''ann'' (server ann_streaming)) = 1"
    by (simp add: eval_defs)
  note t = mp[OF one_open_channel_per_room_and_user run]
  have nc: "\<not> crashed ann_streaming" using t by (rule conjunct1)
  note k = mp[OF spec[OF spec[OF spec[OF conjunct2[OF t]]]] l]
  show ?thesis
    using run l nc k unfolding f by blast
qed

end
